theory Spec2Isabelle
  imports Main "HOL-Library.Word"
begin

section \<open>Status codes\<close>

text \<open>
  The return codes of the configuration parser (\<^verbatim>\<open>ucs_status_t\<close>), restricted to
  the ones \<^verbatim>\<open>src/ucs/config/parser.c\<close> produces. \<open>MODEL_NULL_DEREF\<close> is not a
  status of the C code: the model returns it at the one place where the C code hands a
  \<^verbatim>\<open>NULL\<close> text to a parser's \<^verbatim>\<open>read\<close> (undefined behaviour), so that this
  path stays visible instead of being given an arbitrary result.
\<close>

datatype ucs_status_t =
    UCS_OK
  | UCS_ERR_NO_ELEM
  | UCS_ERR_INVALID_PARAM
  | UCS_ERR_NO_MEMORY
  | UCS_ERR_IO_ERROR
  | MODEL_NULL_DEREF

section \<open>C strings\<close>

text \<open>
  A C string is a \<^typ>\<open>string\<close> without its terminator. \<^verbatim>\<open>strtok_r\<close> is always
  called with a one-character delimiter set here: it skips leading delimiters, returns
  \<^verbatim>\<open>NULL\<close> (\<open>None\<close>) when nothing is left, and otherwise the token up to the next
  delimiter together with the save pointer, which is just behind that delimiter.
\<close>

definition strtok_r :: "char \<Rightarrow> string \<Rightarrow> (string \<times> string) option" where
  "strtok_r delim s =
     (let s1 = dropWhile (\<lambda>c. c = delim) s in
      if s1 = [] then None
      else Some (takeWhile (\<lambda>c. c \<noteq> delim) s1, drop 1 (dropWhile (\<lambda>c. c \<noteq> delim) s1)))"

text \<open>\<^verbatim>\<open>strncmp(a, b, n) == 0\<close>: the first \<open>n\<close> characters agree, terminators included.\<close>

definition strncmp_eq :: "string \<Rightarrow> string \<Rightarrow> nat \<Rightarrow> bool" where
  "strncmp_eq a b n = (take n a = take n b)"

text \<open>\<^verbatim>\<open>strstr(haystack, needle) != NULL\<close>.\<close>

fun strstr_found :: "string \<Rightarrow> string \<Rightarrow> bool" where
  "strstr_found [] needle = (needle = [])"
| "strstr_found (c # h) needle = (take (length needle) (c # h) = needle \<or> strstr_found h needle)"

text \<open>
  \<^verbatim>\<open>snprintf(buf, size, ...)\<close> and \<^verbatim>\<open>ucs_snprintf_safe\<close> leave at most
  \<open>size - 1\<close> characters in a buffer of \<open>size\<close> bytes; \<^verbatim>\<open>strncpy(buf, src, n)\<close> copies at most
  \<open>n\<close>. All buffers written this way in the code modelled here start out zeroed or are
  terminated by the caller.
\<close>

definition snprintf_buf :: "nat \<Rightarrow> string \<Rightarrow> string" where
  "snprintf_buf n s = take (n - 1) s"

definition strncpy_buf :: "nat \<Rightarrow> string \<Rightarrow> string" where
  "strncpy_buf n s = take n s"

text \<open>
  \<^verbatim>\<open>strcasecmp(a, b) == 0\<close> in the C locale: equality after mapping the letters
  \<^verbatim>\<open>A\<close> to \<^verbatim>\<open>Z\<close> to lower case.
\<close>

definition ascii_tolower :: "char \<Rightarrow> char" where
  "ascii_tolower c =
     (case map_of (zip ''ABCDEFGHIJKLMNOPQRSTUVWXYZ'' ''abcdefghijklmnopqrstuvwxyz'') c of
        None \<Rightarrow> c
      | Some l \<Rightarrow> l)"

definition strcasecmp_eq :: "string \<Rightarrow> string \<Rightarrow> bool" where
  "strcasecmp_eq a b = (map ascii_tolower a = map ascii_tolower b)"

text \<open>
  \<^verbatim>\<open>fnmatch(pattern, string, 0) == 0\<close> is a function of the C library. The resolver
  takes it as a parameter \<open>fnm pattern string\<close>; the function below is the matcher for
  patterns built from ordinary characters, \<^verbatim>\<open>?\<close> and \<^verbatim>\<open>*\<close> (no brackets, no
  backslash), and is used where a concrete matcher is needed.
\<close>

fun fnmatch0 :: "string \<Rightarrow> string \<Rightarrow> bool" where
  "fnmatch0 [] [] = True"
| "fnmatch0 [] (c # s) = False"
| "fnmatch0 (p # ps) [] = (p = CHR ''*'' \<and> fnmatch0 ps [])"
| "fnmatch0 (p # ps) (c # s) =
     (if p = CHR ''*'' then fnmatch0 ps (c # s) \<or> fnmatch0 (p # ps) s
      else (p = CHR ''?'' \<or> p = c) \<and> fnmatch0 ps s)"

section \<open>Parsers, fields and the memory of an options structure\<close>

text \<open>
  A parser (\<^verbatim>\<open>ucs_config_parser_t\<close>) is a table of operations closed over its
  argument. \<open>'s\<close> is the content of a slot, with whatever heap storage the slot owns.
  \<^item> \<open>parser_read buf slot\<close> is \<^verbatim>\<open>read(buf, dest, arg)\<close>: the \<^verbatim>\<open>int\<close> it returns
    and the content of \<^verbatim>\<open>dest\<close> afterwards;
  \<^item> \<open>parser_write buf max slot\<close> is \<^verbatim>\<open>write(buf, max, src, arg)\<close>: the \<^verbatim>\<open>int\<close> it
    returns and the text in the buffer afterwards, \<open>buf\<close> being the text the buffer held
    before (a \<^verbatim>\<open>write\<close> that stores nothing, as \<^verbatim>\<open>ucs_config_sprintf_array\<close> does
    for an array without elements, leaves that text in place);
  \<^item> \<open>parser_release slot\<close> is \<^verbatim>\<open>release(ptr, arg)\<close>: the slot afterwards;
  \<^item> \<open>parser_help max\<close> is the text \<^verbatim>\<open>help(buf, max, arg)\<close> leaves in the buffer.
\<close>

record 's ucs_config_parser_t =
  parser_read :: "string \<Rightarrow> 's \<Rightarrow> int \<times> 's"
  parser_write :: "string \<Rightarrow> nat \<Rightarrow> 's \<Rightarrow> int \<times> string"
  parser_release :: "'s \<Rightarrow> 's"
  parser_help :: "nat \<Rightarrow> string"

text \<open>
  Modelled from the spec: the marker \<^verbatim>\<open>UCS_CONFIG_DEPRECATED_FIELD_OFFSET\<close>
  (\<^verbatim>\<open>DEPRECATED_MARKER\<close> in the specification) is declared in \<^verbatim>\<open>parser.h\<close>, which
  is not among the sources; it is taken to be the largest \<^verbatim>\<open>size_t\<close>.
\<close>

definition UCS_CONFIG_DEPRECATED_FIELD_OFFSET :: nat where
  "UCS_CONFIG_DEPRECATED_FIELD_OFFSET = 2 ^ 64 - 1"

text \<open>
  A field (\<^verbatim>\<open>ucs_config_field_t\<close>) has a name, a default text (\<open>None\<close> for the
  \<^verbatim>\<open>NULL\<close> of an alias) and an offset. \<^verbatim>\<open>ucs_config_is_table_field\<close> tests whether
  the parser's \<^verbatim>\<open>read\<close> is \<^verbatim>\<open>ucs_config_sscanf_table\<close>; such a field is a
  \<open>TableField\<close>, whose parser argument is the list of sub-fields. A field list is the
  array up to its \<^verbatim>\<open>NULL\<close>-named terminator. The documentation string of a field is
  only printed and is left out.
\<close>

datatype 's ucs_config_field_t =
    Field (field_name: string) (dfl_value: "string option") (field_offset: nat)
      (field_parser: "'s ucs_config_parser_t")
  | TableField (field_name: string) (dfl_value: "string option") (field_offset: nat)
      (sub_fields: "'s ucs_config_field_t list")

definition ucs_config_is_deprecated_field :: "'s ucs_config_field_t \<Rightarrow> bool" where
  "ucs_config_is_deprecated_field field =
     (field_offset field = UCS_CONFIG_DEPRECATED_FIELD_OFFSET)"

definition ucs_config_is_alias_field :: "'s ucs_config_field_t \<Rightarrow> bool" where
  "ucs_config_is_alias_field field = (dfl_value field = None)"

fun ucs_config_is_table_field :: "'s ucs_config_field_t \<Rightarrow> bool" where
  "ucs_config_is_table_field (TableField n d off sub) = True"
| "ucs_config_is_table_field (Field n d off p) = False"

text \<open>
  The options structure is a block of memory; \<open>m a\<close> is the slot at address \<open>a\<close>, and
  \<^verbatim>\<open>var = (char*)opts + field->offset\<close> is \<open>opts + field_offset field\<close>. A sub-table
  lives inside the block of its parent, at the parent's address plus the offset of the
  table field, so an alias and an inherited table share slots exactly as in C.
\<close>

type_synonym 's opts_memory = "nat \<Rightarrow> 's"

text \<open>
  \<^verbatim>\<open>ucs_config_parser_parse_field\<close> for a field that is not a table (the error it logs
  is left out), and \<^verbatim>\<open>ucs_config_parser_release_field\<close>.
\<close>

definition ucs_config_parser_parse_field ::
  "'s ucs_config_parser_t \<Rightarrow> string \<Rightarrow> nat \<Rightarrow> 's opts_memory \<Rightarrow> ucs_status_t \<times> 's opts_memory" where
  "ucs_config_parser_parse_field p val var m =
     (let (ret, s') = parser_read p val (m var) in
      (if ret \<noteq> 1 then UCS_ERR_INVALID_PARAM else UCS_OK, m(var := s')))"

definition ucs_config_parser_release_field ::
  "'s ucs_config_parser_t \<Rightarrow> nat \<Rightarrow> 's opts_memory \<Rightarrow> 's opts_memory" where
  "ucs_config_parser_release_field p var m = m(var := parser_release p (m var))"

section \<open>The field resolver\<close>

text \<open>
  \<^verbatim>\<open>ucs_config_prefix_name_match\<close>: the name is matched with the table prefix in
  front when there is one (\<^verbatim>\<open>prefix_len\<close> is 0 for a \<^verbatim>\<open>NULL\<close> or empty prefix).
\<close>

definition ucs_config_prefix_name_match ::
  "(string \<Rightarrow> string \<Rightarrow> bool) \<Rightarrow> string option \<Rightarrow> string \<Rightarrow> string \<Rightarrow> bool" where
  "ucs_config_prefix_name_match fnm table_prefix name pattern =
     fnm pattern ((case table_prefix of None \<Rightarrow> [] | Some t \<Rightarrow> t) @ name)"

text \<open>
  The loop of \<^verbatim>\<open>ucs_config_parser_set_value_internal\<close>. \<open>Inl (status, m)\<close> is a
  \<^verbatim>\<open>return status\<close> from inside the loop, \<open>Inr (count, value_buf, m)\<close> is the loop
  running to the end of the list. \<open>svi_finish\<close> is the function's last line, and
  \<open>svi_sub\<close> is what the loop does with the status of a recursive call. The backup
  buffer \<^verbatim>\<open>value_buf\<close> is a local array of the call, initialised to the empty string
  once and handed to the \<^verbatim>\<open>write\<close> of every matching field with what the earlier
  ones left in it; a recursive call has its own.
\<close>

definition svi_finish ::
  "(ucs_status_t \<times> 's opts_memory) + (nat \<times> string \<times> 's opts_memory) \<Rightarrow>
   ucs_status_t \<times> 's opts_memory" where
  "svi_finish r =
     (case r of
        Inl res \<Rightarrow> res
      | Inr (count, value_buf, m) \<Rightarrow> (if count = 0 then UCS_ERR_NO_ELEM else UCS_OK, m))"

definition svi_sub ::
  "nat \<Rightarrow> ucs_status_t \<times> 's opts_memory \<Rightarrow> (ucs_status_t \<times> 's opts_memory) + (nat \<times> 's opts_memory)" where
  "svi_sub count res =
     (case res of (status, m) \<Rightarrow>
        if status = UCS_OK then Inr (count + 1, m)
        else if status \<noteq> UCS_ERR_NO_ELEM then Inl (status, m)
        else Inr (count, m))"

fun svi_loop ::
  "(string \<Rightarrow> string \<Rightarrow> bool) \<Rightarrow> nat \<Rightarrow> 's ucs_config_field_t list \<Rightarrow> string \<Rightarrow> string \<Rightarrow>
   string option \<Rightarrow> bool \<Rightarrow> nat \<Rightarrow> string \<Rightarrow> 's opts_memory \<Rightarrow>
   (ucs_status_t \<times> 's opts_memory) + (nat \<times> string \<times> 's opts_memory)" where
  "svi_loop fnm opts [] name val table_prefix recurse count value_buf m =
     Inr (count, value_buf, m)"
| "svi_loop fnm opts (TableField n d off sub # fs) name val table_prefix recurse count value_buf m =
     (case (if recurse
            then svi_sub count
                   (svi_finish (svi_loop fnm (opts + off) sub name val (Some n) True 0 [] m))
            else Inr (count, m)) of
        Inl res \<Rightarrow> Inl res
      | Inr (count1, m1) \<Rightarrow>
          (case (if table_prefix \<noteq> None
                 then svi_sub count1
                        (svi_finish
                           (svi_loop fnm (opts + off) sub name val table_prefix False 0 [] m1))
                 else Inr (count1, m1)) of
             Inl res \<Rightarrow> Inl res
           | Inr (count2, m2) \<Rightarrow>
               svi_loop fnm opts fs name val table_prefix recurse count2 value_buf m2))"
| "svi_loop fnm opts (Field n d off p # fs) name val table_prefix recurse count value_buf m =
     (if ucs_config_prefix_name_match fnm table_prefix n name then
        if off = UCS_CONFIG_DEPRECATED_FIELD_OFFSET then Inl (UCS_ERR_NO_ELEM, m)
        else
          (let var = opts + off;
               value_buf1 = snd (parser_write p value_buf 255 (m var));
               m1 = ucs_config_parser_release_field p var m
           in case ucs_config_parser_parse_field p val var m1 of (status, m2) \<Rightarrow>
                if status \<noteq> UCS_OK
                then Inl (status, snd (ucs_config_parser_parse_field p value_buf1 var m2))
                else svi_loop fnm opts fs name val table_prefix recurse (count + 1) value_buf1 m2)
      else svi_loop fnm opts fs name val table_prefix recurse count value_buf m)"

definition ucs_config_parser_set_value_internal ::
  "(string \<Rightarrow> string \<Rightarrow> bool) \<Rightarrow> nat \<Rightarrow> 's ucs_config_field_t list \<Rightarrow> string \<Rightarrow> string \<Rightarrow>
   string option \<Rightarrow> bool \<Rightarrow> 's opts_memory \<Rightarrow> ucs_status_t \<times> 's opts_memory" where
  "ucs_config_parser_set_value_internal fnm opts fs name val table_prefix recurse m =
     svi_finish (svi_loop fnm opts fs name val table_prefix recurse 0 [] m)"


section \<open>The table parser and the default values\<close>

lemma strtok_r_rest_shorter:
  assumes "strtok_r d s = Some (tok, rest)"
  shows "length rest < length s"
proof -
  let ?s1 = "dropWhile (\<lambda>c. c = d) s"
  from assms have ne: "?s1 \<noteq> []" and rest: "rest = drop 1 (dropWhile (\<lambda>c. c \<noteq> d) ?s1)"
    by (auto simp: strtok_r_def Let_def split: if_splits)
  have "length rest \<le> length ?s1 - 1"
    unfolding rest using length_dropWhile_le [of "\<lambda>c. c \<noteq> d" ?s1] by simp
  moreover have "0 < length ?s1" using ne by simp
  moreover have "length ?s1 \<le> length s" by (rule length_dropWhile_le)
  ultimately show ?thesis by arith
qed

text \<open>
  \<^verbatim>\<open>ucs_config_sscanf_table\<close>: the text is cut at \<^verbatim>\<open>;\<close>, each token at \<^verbatim>\<open>=\<close>
  into a name and a value, and each pair goes to the resolver with no table prefix and
  \<^verbatim>\<open>recurse = 1\<close>. The function returns 1 when every token was set and 0 otherwise.
\<close>

function sscanf_table_loop ::
  "(string \<Rightarrow> string \<Rightarrow> bool) \<Rightarrow> nat \<Rightarrow> 's ucs_config_field_t list \<Rightarrow> string \<Rightarrow>
   's opts_memory \<Rightarrow> int \<times> 's opts_memory" where
  "sscanf_table_loop fnm dest arg tokens m =
     (case strtok_r CHR '';'' tokens of
        None \<Rightarrow> (1, m)
      | Some (token, saveptr1) \<Rightarrow>
          (case strtok_r CHR ''='' token of
             None \<Rightarrow> (0, m)
           | Some (name, saveptr2) \<Rightarrow>
               (case strtok_r CHR ''='' saveptr2 of
                  None \<Rightarrow> (0, m)
                | Some (val, saveptr3) \<Rightarrow>
                    (case ucs_config_parser_set_value_internal fnm dest arg name val None True m of
                       (status, m') \<Rightarrow>
                         if status \<noteq> UCS_OK then (0, m')
                         else sscanf_table_loop fnm dest arg saveptr1 m'))))"
  by pat_completeness auto
termination
  by (relation "measure (\<lambda>(fnm, dest, arg, tokens, m). length tokens)")
    (auto dest: strtok_r_rest_shorter)

declare sscanf_table_loop.simps [simp del]

definition ucs_config_sscanf_table ::
  "(string \<Rightarrow> string \<Rightarrow> bool) \<Rightarrow> string \<Rightarrow> nat \<Rightarrow> 's ucs_config_field_t list \<Rightarrow>
   's opts_memory \<Rightarrow> int \<times> 's opts_memory" where
  "ucs_config_sscanf_table fnm buf dest arg m = sscanf_table_loop fnm dest arg buf m"

text \<open>\<^verbatim>\<open>ucs_config_parser_parse_field\<close> for a table field.\<close>

definition parse_table_field ::
  "(string \<Rightarrow> string \<Rightarrow> bool) \<Rightarrow> 's ucs_config_field_t list \<Rightarrow> string \<Rightarrow> nat \<Rightarrow>
   's opts_memory \<Rightarrow> ucs_status_t \<times> 's opts_memory" where
  "parse_table_field fnm sub val var m =
     (case ucs_config_sscanf_table fnm val var sub m of
        (ret, m') \<Rightarrow> (if ret \<noteq> 1 then UCS_ERR_INVALID_PARAM else UCS_OK, m'))"

text \<open>
  \<^verbatim>\<open>ucs_config_parser_set_default_values\<close>: alias and deprecated fields are skipped;
  a sub-table first gets the defaults of its own fields and then its own default text.
\<close>

fun ucs_config_parser_set_default_values ::
  "(string \<Rightarrow> string \<Rightarrow> bool) \<Rightarrow> nat \<Rightarrow> 's ucs_config_field_t list \<Rightarrow> 's opts_memory \<Rightarrow>
   ucs_status_t \<times> 's opts_memory" where
  "ucs_config_parser_set_default_values fnm opts [] m = (UCS_OK, m)"
| "ucs_config_parser_set_default_values fnm opts (Field n None off p # fs) m =
     ucs_config_parser_set_default_values fnm opts fs m"
| "ucs_config_parser_set_default_values fnm opts (TableField n None off sub # fs) m =
     ucs_config_parser_set_default_values fnm opts fs m"
| "ucs_config_parser_set_default_values fnm opts (Field n (Some dfl) off p # fs) m =
     (if off = UCS_CONFIG_DEPRECATED_FIELD_OFFSET
      then ucs_config_parser_set_default_values fnm opts fs m
      else case ucs_config_parser_parse_field p dfl (opts + off) m of (status, m1) \<Rightarrow>
             if status \<noteq> UCS_OK then (status, m1)
             else ucs_config_parser_set_default_values fnm opts fs m1)"
| "ucs_config_parser_set_default_values fnm opts (TableField n (Some dfl) off sub # fs) m =
     (if off = UCS_CONFIG_DEPRECATED_FIELD_OFFSET
      then ucs_config_parser_set_default_values fnm opts fs m
      else case ucs_config_parser_set_default_values fnm (opts + off) sub m of (status, m1) \<Rightarrow>
             if status \<noteq> UCS_OK then (status, m1)
             else case parse_table_field fnm sub dfl (opts + off) m1 of (status2, m2) \<Rightarrow>
                    if status2 \<noteq> UCS_OK then (status2, m2)
                    else ucs_config_parser_set_default_values fnm opts fs m2)"

text \<open>
  \<^verbatim>\<open>ucs_config_parser_release_opts\<close>; the \<^verbatim>\<open>release\<close> of a table field is
  \<^verbatim>\<open>ucs_config_release_table\<close>, which releases the sub-fields.
\<close>

fun ucs_config_parser_release_opts ::
  "nat \<Rightarrow> 's ucs_config_field_t list \<Rightarrow> 's opts_memory \<Rightarrow> 's opts_memory" where
  "ucs_config_parser_release_opts opts [] m = m"
| "ucs_config_parser_release_opts opts (Field n d off p # fs) m =
     (if d = None \<or> off = UCS_CONFIG_DEPRECATED_FIELD_OFFSET
      then ucs_config_parser_release_opts opts fs m
      else ucs_config_parser_release_opts opts fs
             (ucs_config_parser_release_field p (opts + off) m))"
| "ucs_config_parser_release_opts opts (TableField n d off sub # fs) m =
     (if d = None \<or> off = UCS_CONFIG_DEPRECATED_FIELD_OFFSET
      then ucs_config_parser_release_opts opts fs m
      else ucs_config_parser_release_opts opts fs
             (ucs_config_parser_release_opts (opts + off) sub m))"

section \<open>Reading a value back\<close>

text \<open>
  What \<^verbatim>\<open>ucs_config_parser_get_value\<close> leaves in the caller's buffer: nothing, the text
  a field's \<^verbatim>\<open>write\<close> produced, or the outcome of calling the \<^verbatim>\<open>write\<close> entry of a
  table field, which \<^verbatim>\<open>parser.c\<close> does not define.
\<close>

datatype value_buffer = Untouched | Written string | TableWrite

text \<open>
  The loop of \<^verbatim>\<open>ucs_config_parser_get_value\<close> runs while the status is
  \<^verbatim>\<open>UCS_ERR_NO_ELEM\<close>. \<open>has_value\<close> is \<^verbatim>\<open>value != NULL\<close> and \<open>buf\<close> is the text
  the caller's buffer holds (at most one \<^verbatim>\<open>write\<close> is called, since a match ends the
  search); the pointers
  \<^verbatim>\<open>opts\<close>, \<^verbatim>\<open>fields\<close> and \<^verbatim>\<open>name\<close> are taken to be non-\<^verbatim>\<open>NULL\<close>, so the
  argument check reduces to \<^verbatim>\<open>!value && (max > 0)\<close>; the recursive call repeats it.
\<close>

fun get_value_loop ::
  "nat \<Rightarrow> 's ucs_config_field_t list \<Rightarrow> string \<Rightarrow> bool \<Rightarrow> string \<Rightarrow> nat \<Rightarrow> 's opts_memory \<Rightarrow>
   ucs_status_t \<times> value_buffer" where
  "get_value_loop opts [] name has_value buf max_len m = (UCS_ERR_NO_ELEM, Untouched)"
| "get_value_loop opts (TableField n d off sub # fs) name has_value buf max_len m =
     (if strncmp_eq n name (length n) then
        (case (if \<not> has_value \<and> 0 < max_len then (UCS_ERR_INVALID_PARAM, Untouched)
               else get_value_loop (opts + off) sub (drop (length n) name) has_value buf max_len
                      m) of
           (status, res) \<Rightarrow>
             if status = UCS_ERR_NO_ELEM then get_value_loop opts fs name has_value buf max_len m
             else (status, res))
      else if strncmp_eq n name (length name) then
        (UCS_OK, if has_value then TableWrite else Untouched)
      else get_value_loop opts fs name has_value buf max_len m)"
| "get_value_loop opts (Field n d off p # fs) name has_value buf max_len m =
     (if strncmp_eq n name (length name) then
        (UCS_OK, if has_value then Written (snd (parser_write p buf max_len (m (opts + off))))
                 else Untouched)
      else get_value_loop opts fs name has_value buf max_len m)"

definition ucs_config_parser_get_value ::
  "nat \<Rightarrow> 's ucs_config_field_t list \<Rightarrow> string \<Rightarrow> bool \<Rightarrow> string \<Rightarrow> nat \<Rightarrow> 's opts_memory \<Rightarrow>
   ucs_status_t \<times> value_buffer" where
  "ucs_config_parser_get_value opts fs name has_value buf max_len m =
     (if \<not> has_value \<and> 0 < max_len then (UCS_ERR_INVALID_PARAM, Untouched)
      else get_value_loop opts fs name has_value buf max_len m)"

section \<open>Applying the environment and the configuration files\<close>

text \<open>
  The state the apply pipeline works on: the memory of the options structures and the
  three globals of \<^verbatim>\<open>parser.c\<close> it touches: the set of used variable names
  (\<^verbatim>\<open>ucs_config_parser_env_vars\<close>), the map built from the configuration files
  (\<^verbatim>\<open>ucs_config_file_vars\<close>) and the one-shot latch \<^verbatim>\<open>config_file_parse\<close> of
  \<^verbatim>\<open>ucs_config_parser_fill_opts\<close>. The process environment is read only and is the
  parameter \<open>env\<close> (\<^verbatim>\<open>getenv\<close>).
\<close>

record 's config_state =
  slots :: "'s opts_memory"
  ucs_config_parser_env_vars :: "string set"
  ucs_config_file_vars :: "string \<rightharpoonup> string"
  config_file_parse :: bool

text \<open>
  \<^verbatim>\<open>ucs_config_parser_mark_env_var_used\<close> (a failing allocation is not modelled; the
  flag \<^verbatim>\<open>added\<close> only decides whether a deprecation warning is logged).
\<close>

definition ucs_config_parser_mark_env_var_used :: "string \<Rightarrow> 's config_state \<Rightarrow> 's config_state" where
  "ucs_config_parser_mark_env_var_used name s =
     s\<lparr>ucs_config_parser_env_vars := insert name (ucs_config_parser_env_vars s)\<rparr>"

text \<open>
  The variable name \<^verbatim>\<open>ucs_config_apply_config_vars\<close> builds in its 256-byte buffer:
  \<^verbatim>\<open>snprintf(buf, sizeof(buf) - 1, "%s%s", prefix, table_prefix)\<close>, then
  \<^verbatim>\<open>strncpy(buf + prefix_len, field->name, sizeof(buf) - prefix_len - 1)\<close>. When the
  field name fills the buffer, \<^verbatim>\<open>strncpy\<close> writes no terminator and the C string ends
  wherever the uninitialised last byte lets it; the model then keeps the 255 bytes written.
\<close>

definition config_var_name :: "string \<Rightarrow> string option \<Rightarrow> string \<Rightarrow> string" where
  "config_var_name prefix table_prefix name =
     (let buf = snprintf_buf 255 (prefix @ (case table_prefix of None \<Rightarrow> [] | Some t \<Rightarrow> t));
          prefix_len = length buf
      in buf @ strncpy_buf (256 - prefix_len - 1) name)"

text \<open>
  The value looked up for a variable: the environment first, then the file map
  (\<^verbatim>\<open>ucs_config_get_value_from_config_file\<close>).
\<close>

definition config_var_lookup ::
  "(string \<rightharpoonup> string) \<Rightarrow> 's config_state \<Rightarrow> string \<Rightarrow> string option" where
  "config_var_lookup env s buf =
     (case env buf of Some v \<Rightarrow> Some v | None \<Rightarrow> ucs_config_file_vars s buf)"

text \<open>
  The body of the loop of \<^verbatim>\<open>ucs_config_apply_config_vars\<close> for a field that is not a
  table and whose variable has the value \<open>env_value\<close>: the slot is released and parsed;
  when that fails the default text is parsed into it, and its status replaces the first
  one only with \<^verbatim>\<open>ignore_errors\<close>. An alias has no default text: the C code then
  passes \<^verbatim>\<open>NULL\<close> to \<^verbatim>\<open>read\<close>.
\<close>

definition apply_config_var ::
  "'s ucs_config_parser_t \<Rightarrow> string option \<Rightarrow> string \<Rightarrow> nat \<Rightarrow> bool \<Rightarrow> 's opts_memory \<Rightarrow>
   ucs_status_t \<times> 's opts_memory" where
  "apply_config_var p dfl env_value var ignore_errors m =
     (let m1 = ucs_config_parser_release_field p var m in
      case ucs_config_parser_parse_field p env_value var m1 of (status, m2) \<Rightarrow>
        if status \<noteq> UCS_OK then
          (case dfl of
             None \<Rightarrow> (MODEL_NULL_DEREF, m2)
           | Some d \<Rightarrow>
               (case ucs_config_parser_parse_field p d var m2 of (tmp_status, m3) \<Rightarrow>
                  (if ignore_errors then tmp_status else status, m3)))
        else (status, m2))"

fun ucs_config_apply_config_vars ::
  "(string \<rightharpoonup> string) \<Rightarrow> nat \<Rightarrow> 's ucs_config_field_t list \<Rightarrow> string \<Rightarrow> string option \<Rightarrow>
   bool \<Rightarrow> bool \<Rightarrow> 's config_state \<Rightarrow> ucs_status_t \<times> 's config_state" where
  "ucs_config_apply_config_vars env opts [] prefix table_prefix recurse ignore_errors s =
     (UCS_OK, s)"
| "ucs_config_apply_config_vars env opts (TableField n d off sub # fs) prefix table_prefix
     recurse ignore_errors s =
     (case (if recurse
            then ucs_config_apply_config_vars env (opts + off) sub prefix (Some n) True
                   ignore_errors s
            else (UCS_OK, s)) of
        (status1, s1) \<Rightarrow>
          if status1 \<noteq> UCS_OK then (status1, s1)
          else
            (case (if table_prefix \<noteq> None
                   then ucs_config_apply_config_vars env (opts + off) sub prefix table_prefix
                          False ignore_errors s1
                   else (UCS_OK, s1)) of
               (status2, s2) \<Rightarrow>
                 if status2 \<noteq> UCS_OK then (status2, s2)
                 else ucs_config_apply_config_vars env opts fs prefix table_prefix recurse
                        ignore_errors s2))"
| "ucs_config_apply_config_vars env opts (Field n d off p # fs) prefix table_prefix
     recurse ignore_errors s =
     (let buf = config_var_name prefix table_prefix n in
      case config_var_lookup env s buf of
        None \<Rightarrow>
          ucs_config_apply_config_vars env opts fs prefix table_prefix recurse ignore_errors s
      | Some env_value \<Rightarrow>
          (let s1 = ucs_config_parser_mark_env_var_used buf s in
           if off = UCS_CONFIG_DEPRECATED_FIELD_OFFSET
           then ucs_config_apply_config_vars env opts fs prefix table_prefix recurse
                  ignore_errors s1
           else
             (case apply_config_var p d env_value (opts + off) ignore_errors (slots s1) of
                (status, m') \<Rightarrow>
                  if status \<noteq> UCS_OK then (status, s1\<lparr>slots := m'\<rparr>)
                  else ucs_config_apply_config_vars env opts fs prefix table_prefix recurse
                         ignore_errors (s1\<lparr>slots := m'\<rparr>))))"

section \<open>The sub-prefix of an environment prefix\<close>

text \<open>
  \<^verbatim>\<open>ucs_config_parser_get_sub_prefix\<close>: after the length check, \<^verbatim>\<open>len\<close> starts
  at \<^verbatim>\<open>strlen(env_prefix) - 2\<close> and is decremented while \<^verbatim>\<open>len > 0\<close> and
  \<^verbatim>\<open>env_prefix[len - 1] != '_'\<close>. The loop is the function below, by recursion on
  \<^verbatim>\<open>len\<close>.
\<close>

fun sub_prefix_scan :: "string \<Rightarrow> nat \<Rightarrow> nat" where
  "sub_prefix_scan env_prefix 0 = 0"
| "sub_prefix_scan env_prefix (Suc len) =
     (if env_prefix ! len \<noteq> CHR ''_'' then sub_prefix_scan env_prefix len else Suc len)"

text \<open>
  The result is the status (\<open>Inl\<close>) or the value stored through \<^verbatim>\<open>sub_prefix_p\<close>:
  \<open>None\<close> for the \<^verbatim>\<open>NULL\<close> pointer, \<open>Some\<close> of the suffix that starts at
  \<^verbatim>\<open>env_prefix + len\<close>.
\<close>

definition ucs_config_parser_get_sub_prefix :: "string \<Rightarrow> ucs_status_t + string option" where
  "ucs_config_parser_get_sub_prefix env_prefix =
     (let len = length env_prefix in
      if len < 2 then Inl UCS_ERR_INVALID_PARAM
      else let len' = sub_prefix_scan env_prefix (len - 2) in
           Inr (if len' > 0 then Some (drop len' env_prefix) else None))"

section \<open>Filling an options structure\<close>

text \<open>
  A registered table (\<^verbatim>\<open>ucs_config_global_list_entry_t\<close>): its field list, its prefix
  and the \<^verbatim>\<open>UCS_CONFIG_TABLE_FLAG_LOADED\<close> bit of its flags.
\<close>

record 's ucs_config_global_list_entry_t =
  entry_table :: "'s ucs_config_field_t list"
  entry_prefix :: "string option"
  entry_loaded :: bool

text \<open>
  \<^verbatim>\<open>UCS_INIT_ONCE(&config_file_parse)\<close>: the first call parses the configuration
  files. Reading files is outside the parser; \<open>parse_files\<close> is what
  \<^verbatim>\<open>ucs_config_parse_config_files\<close> makes of the file map.
\<close>

definition config_file_parse_once ::
  "((string \<rightharpoonup> string) \<Rightarrow> (string \<rightharpoonup> string)) \<Rightarrow> 's config_state \<Rightarrow> 's config_state" where
  "config_file_parse_once parse_files s =
     (if config_file_parse s then s
      else s\<lparr>ucs_config_file_vars := parse_files (ucs_config_file_vars s),
             config_file_parse := True\<rparr>)"

text \<open>
  \<^verbatim>\<open>ucs_config_parser_fill_opts\<close>. The label \<^verbatim>\<open>err_free\<close> releases the options
  and falls through to \<^verbatim>\<open>err\<close>, which only returns the status.
\<close>

definition ucs_config_parser_fill_opts ::
  "(string \<Rightarrow> string \<Rightarrow> bool) \<Rightarrow> (string \<rightharpoonup> string) \<Rightarrow>
   ((string \<rightharpoonup> string) \<Rightarrow> (string \<rightharpoonup> string)) \<Rightarrow> nat \<Rightarrow>
   's ucs_config_global_list_entry_t \<Rightarrow> string \<Rightarrow> bool \<Rightarrow> 's config_state \<Rightarrow>
   ucs_status_t \<times> 's config_state \<times> 's ucs_config_global_list_entry_t" where
  "ucs_config_parser_fill_opts fnm env parse_files opts entry env_prefix ignore_errors s =
     (case ucs_config_parser_set_default_values fnm opts (entry_table entry) (slots s) of
        (status, m0) \<Rightarrow>
          if status \<noteq> UCS_OK then (status, s\<lparr>slots := m0\<rparr>, entry)
          else
            (case ucs_config_parser_get_sub_prefix env_prefix of
               Inl status \<Rightarrow> (status, s\<lparr>slots := m0\<rparr>, entry)
             | Inr sub_prefix \<Rightarrow>
                 (let s0 = config_file_parse_once parse_files (s\<lparr>slots := m0\<rparr>) in
                  case (case sub_prefix of
                          None \<Rightarrow> (UCS_OK, s0)
                        | Some sp \<Rightarrow>
                            ucs_config_apply_config_vars env opts (entry_table entry) sp
                              (entry_prefix entry) True ignore_errors s0) of
                    (status1, s1) \<Rightarrow>
                      if status1 \<noteq> UCS_OK
                      then (status1,
                            s1\<lparr>slots := ucs_config_parser_release_opts opts (entry_table entry)
                                            (slots s1)\<rparr>,
                            entry)
                      else
                        (case ucs_config_apply_config_vars env opts (entry_table entry)
                                env_prefix (entry_prefix entry) True ignore_errors s1 of
                           (status2, s2) \<Rightarrow>
                             if status2 \<noteq> UCS_OK
                             then (status2,
                                   s2\<lparr>slots := ucs_config_parser_release_opts opts
                                                   (entry_table entry) (slots s2)\<rparr>,
                                   entry)
                             else (UCS_OK, s2, entry\<lparr>entry_loaded := True\<rparr>)))))"

section \<open>Printing a field\<close>

text \<open>The print flags (\<^verbatim>\<open>ucs_config_print_flags_t\<close>), one boolean for each bit.\<close>

record ucs_config_print_flags_t =
  UCS_CONFIG_PRINT_CONFIG :: bool
  UCS_CONFIG_PRINT_HEADER :: bool
  UCS_CONFIG_PRINT_DOC :: bool
  UCS_CONFIG_PRINT_HIDDEN :: bool
  UCS_CONFIG_PRINT_COMMENT_DEFAULT :: bool

text \<open>
  \<^verbatim>\<open>ucs_config_parser_is_default\<close>: the variable name is formatted into a 128-byte
  buffer with \<^verbatim>\<open>ucs_snprintf_safe(var_name, sizeof(var_name) - 1, ...)\<close> and looked up
  in the environment; the file map is looked up with \<^verbatim>\<open>name\<close>.
\<close>

definition ucs_config_parser_is_default ::
  "(string \<rightharpoonup> string) \<Rightarrow> (string \<rightharpoonup> string) \<Rightarrow> string \<Rightarrow> string \<Rightarrow> string \<Rightarrow> bool" where
  "ucs_config_parser_is_default env file_vars env_prefix prefix name =
     (let var_name = snprintf_buf 127 (env_prefix @ prefix @ name) in
      file_vars name = None \<and> env var_name = None)"

definition ucs_config_parser_print_header :: "string \<Rightarrow> string list" where
  "ucs_config_parser_print_header title = [''#'', ''# '' @ title, ''#'', []]"

text \<open>\<^verbatim>\<open>%-*s\<close> with width \<^verbatim>\<open>UCS_CONFIG_PARSER_DOCSTR_WIDTH\<close>.\<close>

definition UCS_CONFIG_PARSER_DOCSTR_WIDTH :: nat where
  "UCS_CONFIG_PARSER_DOCSTR_WIDTH = 10"

definition pad_right :: "nat \<Rightarrow> string \<Rightarrow> string" where
  "pad_right w s = s @ replicate (w - length s) CHR '' ''"

text \<open>The names under the other prefixes of the list, as the \<^verbatim>\<open>inherits:\<close> line has them.\<close>

fun inherits_text :: "string \<Rightarrow> string \<Rightarrow> string list \<Rightarrow> string" where
  "inherits_text env_prefix name [] = []"
| "inherits_text env_prefix name [p] = '' '' @ env_prefix @ p @ name"
| "inherits_text env_prefix name (p # q # ps) =
     '' '' @ env_prefix @ p @ name @ '','' @ inherits_text env_prefix name (q # ps)"

text \<open>
  \<^verbatim>\<open>ucs_config_parser_print_field\<close>, for a field with offset \<open>off\<close> and parser \<open>p\<close>
  (the function is never called on a table field). The result is the updated flags and
  the lines written to the stream. \<open>doc_lines\<close> are the lines of the field's
  documentation and \<open>docstr\<close> is the formatted extra line, when there is one. The
  buffer \<^verbatim>\<open>value_buf\<close> starts out zeroed, so the \<^verbatim>\<open>write\<close> finds it empty.
\<close>

definition ucs_config_parser_print_field ::
  "(string \<rightharpoonup> string) \<Rightarrow> (string \<rightharpoonup> string) \<Rightarrow> 's opts_memory \<Rightarrow> nat \<Rightarrow> string \<Rightarrow>
   string list \<Rightarrow> string \<Rightarrow> nat \<Rightarrow> 's ucs_config_parser_t \<Rightarrow> ucs_config_print_flags_t \<Rightarrow>
   string \<Rightarrow> string option \<Rightarrow> string option \<Rightarrow> string list \<Rightarrow>
   ucs_config_print_flags_t \<times> string list" where
  "ucs_config_parser_print_field env file_vars m opts env_prefix prefix_list name off p flags
     title name_filter docstr doc_lines =
     (case prefix_list of
        [] \<Rightarrow> (flags, [])
      | hd_prefix # others \<Rightarrow>
          (let name_buf = snprintf_buf 128 (env_prefix @ hd_prefix @ name) in
           if (case name_filter of None \<Rightarrow> False | Some f \<Rightarrow> \<not> strstr_found name_buf f)
           then (flags, [])
           else
             (let header = (if UCS_CONFIG_PRINT_HEADER flags
                            then ucs_config_parser_print_header title else []);
                  flags1 = flags\<lparr>UCS_CONFIG_PRINT_HEADER := False\<rparr>;
                  value_buf = (if off = UCS_CONFIG_DEPRECATED_FIELD_OFFSET
                               then '' (deprecated)''
                               else ''='' @ snd (parser_write p [] 126 (m (opts + off))));
                  syntax_buf = (if off = UCS_CONFIG_DEPRECATED_FIELD_OFFSET
                                then ''N/A'' else parser_help p 255);
                  default_config_prefix =
                    (if UCS_CONFIG_PRINT_COMMENT_DEFAULT flags1 \<and>
                        ucs_config_parser_is_default env file_vars env_prefix hd_prefix name
                     then ''# '' else []);
                  doc_block =
                    (if UCS_CONFIG_PRINT_DOC flags1
                     then [''#''] @ map (\<lambda>line. ''# '' @ line) doc_lines @ [''#'']
                          @ [''# '' @ pad_right UCS_CONFIG_PARSER_DOCSTR_WIDTH ''syntax:'' @ '' ''
                               @ syntax_buf]
                          @ (case docstr of None \<Rightarrow> [] | Some ds \<Rightarrow> [''# '' @ ds])
                          @ (if others \<noteq> []
                             then [''# '' @ pad_right UCS_CONFIG_PARSER_DOCSTR_WIDTH ''inherits:''
                                     @ inherits_text env_prefix name others]
                             else [])
                          @ [''#'']
                     else [])
              in (flags1,
                  header @ doc_block @ [default_config_prefix @ name_buf @ value_buf]
                  @ (if UCS_CONFIG_PRINT_DOC flags1 then [[]] else [])))))"

section \<open>Scalar parsers\<close>

text \<open>
  Modelled from the spec: the literals \<^verbatim>\<open>UCS_NUMERIC_INF_STR\<close> (\<^verbatim>\<open>inf\<close>) and
  \<^verbatim>\<open>UCS_VALUE_AUTO_STR\<close> (\<^verbatim>\<open>auto\<close>) and the values of the ternary type are declared
  in headers that are not among the sources. \<^verbatim>\<open>UCS_NO == 0\<close> and \<^verbatim>\<open>UCS_YES == 1\<close>
  are asserted in \<^verbatim>\<open>ucs_config_sscanf_ternary\<close>; \<^verbatim>\<open>UCS_TRY\<close> and \<^verbatim>\<open>UCS_AUTO\<close> are the
  next two values of the enumeration.
\<close>

definition UCS_NUMERIC_INF_STR :: string where
  "UCS_NUMERIC_INF_STR = ''inf''"


definition UINT_MAX :: "32 word" where
  "UINT_MAX = - 1"


text \<open>
  The two C library conversions the unsigned parser uses. \<^verbatim>\<open>snprintf("%u")\<close> prints
  the decimal digits, most significant first. \<^verbatim>\<open>sscanf("%u")\<close> skips white space,
  takes an optional sign and the longest run of decimal digits, and gives \<^verbatim>\<open>EOF\<close>
  (\<open>-1\<close>) when the input ends before anything was read, 0 when no digit was found and
  1 with the converted value otherwise. The conversion is that of \<^verbatim>\<open>strtoul\<close>: digits
  beyond the range of \<^verbatim>\<open>unsigned long\<close> give \<^verbatim>\<open>ULONG_MAX\<close> whatever the sign, and a
  value in range is negated in \<^verbatim>\<open>unsigned long\<close> after a minus sign; the result is then
  narrowed to 32 bits.
\<close>

definition digit_char :: "nat \<Rightarrow> char" where
  "digit_char d = ''0123456789'' ! d"

definition digit_val :: "char \<Rightarrow> nat option" where
  "digit_val c = map_of (zip ''0123456789'' [0, 1, 2, 3, 4, 5, 6, 7, 8, 9]) c"

function snprintf_u_digits :: "nat \<Rightarrow> string" where
  "snprintf_u_digits n =
     (if n < 10 then [digit_char n]
      else snprintf_u_digits (n div 10) @ [digit_char (n mod 10)])"
  by pat_completeness auto
termination
  by (relation "measure id") auto

declare snprintf_u_digits.simps [simp del]

definition digits_value :: "string \<Rightarrow> nat" where
  "digits_value ds = foldl (\<lambda>acc c. 10 * acc + (case digit_val c of None \<Rightarrow> 0 | Some d \<Rightarrow> d)) 0 ds"

definition isspace :: "char \<Rightarrow> bool" where
  "isspace c = (c \<in> set [CHR '' '', CHR 0x09, CHR 0x0A, CHR 0x0B, CHR 0x0C, CHR 0x0D])"

definition sscanf_u :: "string \<Rightarrow> int \<times> 32 word option" where
  "sscanf_u buf =
     (let s = dropWhile isspace buf in
      if s = [] then (- 1, None)
      else
        (let neg = (hd s = CHR ''-'');
             s1 = (if hd s = CHR ''-'' \<or> hd s = CHR ''+'' then tl s else s);
             ds = takeWhile (\<lambda>c. digit_val c \<noteq> None) s1
         in if ds = [] then (0, None)
            else
              (let n = digits_value ds
               in (1, Some (if 2 ^ 64 \<le> n then word_of_nat (2 ^ 64 - 1)
                            else if neg then - word_of_nat n else word_of_nat n)))))"

text \<open>\<^verbatim>\<open>ucs_config_sscanf_uint\<close> and \<^verbatim>\<open>ucs_config_sprintf_uint\<close>.\<close>

definition ucs_config_sscanf_uint :: "string \<Rightarrow> 32 word \<Rightarrow> int \<times> 32 word" where
  "ucs_config_sscanf_uint buf dest =
     (if strcasecmp_eq buf UCS_NUMERIC_INF_STR then (1, UINT_MAX)
      else case sscanf_u buf of
             (ret, None) \<Rightarrow> (ret, dest)
           | (ret, Some w) \<Rightarrow> (ret, w))"

definition ucs_config_sprintf_uint :: "nat \<Rightarrow> 32 word \<Rightarrow> int \<times> string" where
  "ucs_config_sprintf_uint max_len src =
     (if src = UINT_MAX then (1, snprintf_buf max_len UCS_NUMERIC_INF_STR)
      else (int (length (snprintf_u_digits (unat src))),
            snprintf_buf max_len (snprintf_u_digits (unat src))))"






text \<open>
  \<^verbatim>\<open>ucs_config_sscanf_string\<close>, \<^verbatim>\<open>ucs_config_sprintf_string\<close> and
  \<^verbatim>\<open>ucs_config_release_string\<close>: the slot owns a copy of the text until it is freed
  (\<open>None\<close>). Writing a freed slot reads freed memory; the model gives the empty text.
\<close>

definition ucs_config_sscanf_string :: "string \<Rightarrow> string option \<Rightarrow> int \<times> string option" where
  "ucs_config_sscanf_string buf dest = (1, Some buf)"

definition ucs_config_sprintf_string :: "nat \<Rightarrow> string option \<Rightarrow> int \<times> string" where
  "ucs_config_sprintf_string max_len src =
     (1, strncpy_buf max_len (case src of None \<Rightarrow> [] | Some t \<Rightarrow> t))"

definition ucs_config_release_string :: "string option \<Rightarrow> string option" where
  "ucs_config_release_string ptr = None"





section \<open>The array parser\<close>

text \<open>
  An array slot (\<^verbatim>\<open>ucs_config_array_field_t\<close>) is a block of element slots and a
  count. \<^verbatim>\<open>ucs_config_sscanf_array\<close> allocates \<^verbatim>\<open>UCS_CONFIG_ARRAY_MAX\<close> zeroed
  elements and reads one token into each, until the tokens or the elements run out. The
  constant is declared in \<^verbatim>\<open>parser.h\<close>, which is not among the sources, and is the
  parameter \<open>array_max\<close>; \<open>zero\<close> is the content of a zeroed element. The loop state is
  the current token with its save pointer, the block and the index \<^verbatim>\<open>i\<close>; \<open>None\<close> is
  the \<^verbatim>\<open>return 0\<close> after an element was refused. An index outside the block can only
  arise for \<open>array_max = 0\<close>, where the C code writes behind an empty block.
\<close>

record 'e ucs_config_array_field_t =
  array_data :: "'e list"
  array_count :: nat

function sscanf_array_loop ::
  "'e ucs_config_parser_t \<Rightarrow> nat \<Rightarrow> (string \<times> string) option \<Rightarrow> 'e list \<Rightarrow> nat \<Rightarrow>
   ('e list \<times> nat) option" where
  "sscanf_array_loop elem array_max tok temp_field i =
     (case tok of
        None \<Rightarrow> Some (temp_field, i)
      | Some (token, saveptr) \<Rightarrow>
          (case parser_read elem token (temp_field ! i) of (ret, e) \<Rightarrow>
             if ret = 0 then None
             else if array_max \<le> i + 1 then Some (temp_field[i := e], i + 1)
             else sscanf_array_loop elem array_max (strtok_r CHR '','' saveptr)
                    (temp_field[i := e]) (i + 1)))"
  by pat_completeness auto
termination
  by (relation "measure (\<lambda>(elem, array_max, tok, temp_field, i).
        case tok of None \<Rightarrow> 0 | Some (token, saveptr) \<Rightarrow> Suc (length saveptr))")
    (auto dest: strtok_r_rest_shorter split: option.splits)

declare sscanf_array_loop.simps [simp del]

definition ucs_config_sscanf_array ::
  "'e ucs_config_parser_t \<Rightarrow> 'e \<Rightarrow> nat \<Rightarrow> string \<Rightarrow> 'e ucs_config_array_field_t \<Rightarrow>
   int \<times> 'e ucs_config_array_field_t" where
  "ucs_config_sscanf_array elem zero array_max buf field =
     (case sscanf_array_loop elem array_max (strtok_r CHR '','' buf)
             (replicate array_max zero) 0 of
        None \<Rightarrow> (0, field)
      | Some (temp_field, i) \<Rightarrow> (1, \<lparr>array_data = temp_field, array_count = i\<rparr>))"

text \<open>The comma-separated tokens of a text, in the order \<^verbatim>\<open>strtok_r\<close> yields them.\<close>

function strtok_tokens :: "char \<Rightarrow> string \<Rightarrow> string list" where
  "strtok_tokens d s =
     (case strtok_r d s of None \<Rightarrow> [] | Some (token, saveptr) \<Rightarrow> token # strtok_tokens d saveptr)"
  by pat_completeness auto
termination
  by (relation "measure (\<lambda>(d, s). length s)") (auto dest: strtok_r_rest_shorter)

declare strtok_tokens.simps [simp del]

section \<open>A concrete slot type\<close>

text \<open>
  Slots that hold an \<^verbatim>\<open>unsigned\<close> or a string pointer, and the parsers
  \<^verbatim>\<open>UCS_CONFIG_TYPE_UINT\<close> and \<^verbatim>\<open>UCS_CONFIG_TYPE_STRING\<close> on them. The release of
  the unsigned parser is \<^verbatim>\<open>ucs_config_release_nop\<close>; the help text is the argument of
  \<^verbatim>\<open>ucs_config_help_generic\<close>, which the header supplies and which is a parameter here.
\<close>

datatype config_value = VUint "32 word" | VString "string option"

fun as_uint :: "config_value \<Rightarrow> 32 word" where
  "as_uint (VUint w) = w"
| "as_uint (VString t) = 0"

fun as_string :: "config_value \<Rightarrow> string option" where
  "as_string (VString t) = t"
| "as_string (VUint w) = None"

definition ucs_config_help_generic :: "string \<Rightarrow> nat \<Rightarrow> string" where
  "ucs_config_help_generic arg max_len = strncpy_buf max_len arg"

definition config_type_uint :: "string \<Rightarrow> config_value ucs_config_parser_t" where
  "config_type_uint help_arg =
     \<lparr>parser_read = (\<lambda>buf slot. case ucs_config_sscanf_uint buf (as_uint slot) of
                        (ret, w) \<Rightarrow> (ret, if ret = 1 then VUint w else slot)),
      parser_write = (\<lambda>buf max_len slot. ucs_config_sprintf_uint max_len (as_uint slot)),
      parser_release = (\<lambda>slot. slot),
      parser_help = ucs_config_help_generic help_arg\<rparr>"

definition config_type_string :: "string \<Rightarrow> config_value ucs_config_parser_t" where
  "config_type_string help_arg =
     \<lparr>parser_read = (\<lambda>buf slot. case ucs_config_sscanf_string buf (as_string slot) of
                        (ret, t) \<Rightarrow> (ret, VString t)),
      parser_write = (\<lambda>buf max_len slot. ucs_config_sprintf_string max_len (as_string slot)),
      parser_release = (\<lambda>slot. VString (ucs_config_release_string (as_string slot))),
      parser_help = ucs_config_help_generic help_arg\<rparr>"

section \<open>The slots of a field list\<close>

text \<open>
  The addresses \<^verbatim>\<open>var\<close> that the traversals of a field list can write: the slot of every
  field that is neither a table nor deprecated, in the list and in its sub-tables. A
  slot shared by two fields (an alias and its target, say) is written through either.
\<close>

fun field_addrs :: "nat \<Rightarrow> 's ucs_config_field_t list \<Rightarrow> nat set" where
  "field_addrs opts [] = {}"
| "field_addrs opts (Field n d off p # fs) =
     (if off = UCS_CONFIG_DEPRECATED_FIELD_OFFSET then field_addrs opts fs
      else insert (opts + off) (field_addrs opts fs))"
| "field_addrs opts (TableField n d off sub # fs) =
     field_addrs (opts + off) sub \<union> field_addrs opts fs"

section \<open>Fields inside sub-tables\<close>

text \<open>
  A field reached through nested sub-tables. A \<open>table_step\<close> is one enclosing table entry:
  the fields before it in its list, its name (which serves as table prefix), its default
  text, its offset, and the fields after it. \<open>nest steps inner\<close> is the field list that
  holds the list \<open>inner\<close> below these entries, the outermost first; \<open>nest_opts\<close> is the
  base address with which the traversals reach \<open>inner\<close>, every table adding its offset;
  \<open>step_names\<close> lists the names of the tables on the way.
\<close>

type_synonym 's table_step =
  "'s ucs_config_field_t list \<times> string \<times> string option \<times> nat \<times> 's ucs_config_field_t list"

fun nest :: "'s table_step list \<Rightarrow> 's ucs_config_field_t list \<Rightarrow> 's ucs_config_field_t list" where
  "nest [] inner = inner"
| "nest ((pre, tn, td, toff, post) # steps) inner =
     pre @ TableField tn td toff (nest steps inner) # post"

fun nest_opts :: "nat \<Rightarrow> 's table_step list \<Rightarrow> nat" where
  "nest_opts opts [] = opts"
| "nest_opts opts ((pre, tn, td, toff, post) # steps) = nest_opts (opts + toff) steps"

fun step_names :: "'s table_step list \<Rightarrow> string list" where
  "step_names [] = []"
| "step_names ((pre, tn, td, toff, post) # steps) = tn # step_names steps"

text \<open>
  No field beside the path writes the slot of the field at offset \<open>off\<close> of the innermost
  list: not the fields before and after it there, nor those before and after each enclosing
  table entry.
\<close>

fun field_alone ::
  "nat \<Rightarrow> 's table_step list \<Rightarrow> 's ucs_config_field_t list \<Rightarrow> nat \<Rightarrow> 's ucs_config_field_t list \<Rightarrow>
   bool" where
  "field_alone opts [] pre off post =
     (opts + off \<notin> field_addrs opts pre \<and> opts + off \<notin> field_addrs opts post)"
| "field_alone opts ((pre0, tn, td, toff, post0) # steps) pre off post =
     (nest_opts (opts + toff) steps + off \<notin> field_addrs opts pre0
      \<and> nest_opts (opts + toff) steps + off \<notin> field_addrs opts post0
      \<and> field_alone (opts + toff) steps pre off post)"

text \<open>
  Every enclosing table has a default text that holds no assignment, so that
  \<^verbatim>\<open>ucs_config_sscanf_table\<close> finds no token in it and sets no sub-field from it, and none
  is deprecated.
\<close>

fun plain_tables :: "'s table_step list \<Rightarrow> bool" where
  "plain_tables [] = True"
| "plain_tables ((pre, tn, td, toff, post) # steps) =
     ((case td of None \<Rightarrow> False | Some t \<Rightarrow> strtok_r CHR '';'' t = None)
      \<and> toff \<noteq> UCS_CONFIG_DEPRECATED_FIELD_OFFSET \<and> plain_tables steps)"

text \<open>
  The fields that \<^verbatim>\<open>ucs_config_parser_set_default_values\<close> reads a default text for:
  those of the list and of its sub-tables that are neither tables nor deprecated.
\<close>

fun leaf_fields :: "'s ucs_config_field_t list \<Rightarrow> 's ucs_config_field_t list" where
  "leaf_fields [] = []"
| "leaf_fields (Field n d off p # fs) =
     (if off = UCS_CONFIG_DEPRECATED_FIELD_OFFSET then leaf_fields fs
      else Field n d off p # leaf_fields fs)"
| "leaf_fields (TableField n d off sub # fs) = leaf_fields sub @ leaf_fields fs"

text \<open>
  The names under which one call of \<^verbatim>\<open>ucs_config_apply_config_vars\<close> with a prefix looks
  for a value of the field \<open>name\<close> lying below the tables \<open>tables\<close> (outermost first), in
  the order in which it applies them. A table entry is descended first with its own name as
  table prefix and then, without descending further by name, with the table prefix the
  enclosing list was reached with (parser.c:1691-1712): the name built with the innermost
  table comes first, then those of the enclosing tables, the one built with the table prefix
  of the call last. What is applied later overwrites what was applied before.
\<close>

definition table_prefixes :: "string list \<Rightarrow> string option \<Rightarrow> string list" where
  "table_prefixes tables table_prefix =
     rev tables @ (case table_prefix of
                     Some t \<Rightarrow> [t]
                   | None \<Rightarrow> if tables = [] then [[]] else [])"

definition var_names :: "string \<Rightarrow> string list \<Rightarrow> string option \<Rightarrow> string \<Rightarrow> string list" where
  "var_names prefix tables table_prefix name =
     map (\<lambda>t. config_var_name prefix (Some t) name) (table_prefixes tables table_prefix)"

text \<open>
  Along a list of names given with the decisive names first, no file entry stands before an
  environment variable: when a name has a file entry but no environment variable, no later
  name has an environment variable.
\<close>

fun env_over_file :: "(string \<rightharpoonup> string) \<Rightarrow> (string \<rightharpoonup> string) \<Rightarrow> string list \<Rightarrow> bool" where
  "env_over_file env file_vars [] = True"
| "env_over_file env file_vars (name # names) =
     ((env name = None \<and> file_vars name \<noteq> None \<longrightarrow> (\<forall>later \<in> set names. env later = None))
      \<and> env_over_file env file_vars names)"

text \<open>
  What \<open>apply_config_var\<close> makes of a slot holding \<open>x\<close> when it applies the text \<open>v\<close>, and
  the status it returns; what the slot of a field becomes when the values found under a list
  of names are applied one after the other; and the effect of a traversal on a state as far
  as one field is concerned: the slot at \<open>a\<close>, when no other field writes it, the status of
  every value applied to the field, and the file map, which is left as it was.
\<close>

definition applied_value ::
  "'s ucs_config_parser_t \<Rightarrow> string option \<Rightarrow> bool \<Rightarrow> string \<Rightarrow> 's \<Rightarrow> 's" where
  "applied_value p dfl ignore_errors v x =
     snd (apply_config_var p dfl v 0 ignore_errors (\<lambda>a. x)) 0"

definition applied_status ::
  "'s ucs_config_parser_t \<Rightarrow> string option \<Rightarrow> bool \<Rightarrow> string \<Rightarrow> 's \<Rightarrow> ucs_status_t" where
  "applied_status p dfl ignore_errors v x =
     fst (apply_config_var p dfl v 0 ignore_errors (\<lambda>a. x))"

definition pass_value ::
  "(string \<rightharpoonup> string) \<Rightarrow> 's config_state \<Rightarrow> 's ucs_config_parser_t \<Rightarrow> string option \<Rightarrow> bool \<Rightarrow>
   string list \<Rightarrow> 's \<Rightarrow> 's" where
  "pass_value env s p dfl ignore_errors names x =
     foldl (\<lambda>x name. case config_var_lookup env s name of
                        None \<Rightarrow> x
                      | Some v \<Rightarrow> applied_value p dfl ignore_errors v x) x names"

definition pass_effect ::
  "(string \<rightharpoonup> string) \<Rightarrow> 's ucs_config_parser_t \<Rightarrow> string option \<Rightarrow> bool \<Rightarrow> nat \<Rightarrow> bool \<Rightarrow>
   string list \<Rightarrow> 's config_state \<Rightarrow> 's config_state \<Rightarrow> bool" where
  "pass_effect env p dfl ignore_errors a alone names s s' =
     ((alone \<longrightarrow> slots s' a = pass_value env s p dfl ignore_errors names (slots s a))
      \<and> (\<forall>name \<in> set names. \<forall>v. config_var_lookup env s name = Some v \<longrightarrow>
            (\<exists>x. applied_status p dfl ignore_errors v x = UCS_OK))
      \<and> ucs_config_file_vars s' = ucs_config_file_vars s)"


section \<open>Properties of the sub-prefix\<close>

lemma sub_prefix_scan_none:
  "(\<And>j. j < n \<Longrightarrow> p ! j \<noteq> CHR ''_'') \<Longrightarrow> sub_prefix_scan p n = 0"
  by (induction n) simp_all

lemma sub_prefix_scan_stop:
  "p ! i = CHR ''_'' \<Longrightarrow> i < n \<Longrightarrow> (\<And>j. i < j \<Longrightarrow> j < n \<Longrightarrow> p ! j \<noteq> CHR ''_'')
     \<Longrightarrow> sub_prefix_scan p n = Suc i"
proof (induction n)
  case 0
  then show ?case by simp
next
  case (Suc n)
  show ?case
  proof (cases "i = n")
    case True
    with Suc.prems(1) show ?thesis by simp
  next
    case False
    with Suc.prems(2) have lt: "i < n" by simp
    from Suc.prems(3) [of n] lt have "p ! n \<noteq> CHR ''_''" by simp
    moreover have "sub_prefix_scan p n = Suc i"
      using Suc.IH [OF Suc.prems(1) lt] Suc.prems(3) by simp
    ultimately show ?thesis by simp
  qed
qed

lemma sub_prefix_two_segments:
  assumes "B \<noteq> []" and "CHR ''_'' \<notin> set B"
  shows "ucs_config_parser_get_sub_prefix (A @ ''_'' @ B @ ''_'') = Inr (Some (B @ ''_''))"
proof -
  let ?p = "A @ ''_'' @ B @ ''_''"
  have len: "length ?p - 2 = length A + length B" by simp
  have at: "?p ! length A = CHR ''_''" by (simp add: nth_append)
  have lt: "length A < length A + length B" using assms(1) by simp
  have rest: "?p ! j \<noteq> CHR ''_''" if "length A < j" and "j < length A + length B" for j
  proof -
    define k where "k = j - Suc (length A)"
    from that have k: "j = length A + Suc k" and kb: "k < length B"
      unfolding k_def by arith+
    have "?p ! j = B ! k"
      using kb by (simp add: k nth_append)
    moreover have "B ! k \<in> set B"
      using kb by (rule nth_mem)
    ultimately show ?thesis using assms(2) by metis
  qed
  have "sub_prefix_scan ?p (length A + length B) = Suc (length A)"
    by (rule sub_prefix_scan_stop [OF at lt rest])
  then show ?thesis
    unfolding ucs_config_parser_get_sub_prefix_def Let_def len by simp
qed

lemma sub_prefix_no_separator:
  assumes "2 \<le> length p" and "\<And>j. j < length p - 2 \<Longrightarrow> p ! j \<noteq> CHR ''_''"
  shows "ucs_config_parser_get_sub_prefix p = Inr None"
proof -
  have "sub_prefix_scan p (length p - 2) = 0"
    by (rule sub_prefix_scan_none) (rule assms(2))
  then show ?thesis
    using assms(1) unfolding ucs_config_parser_get_sub_prefix_def Let_def by simp
qed

lemma sub_prefix_too_short:
  "length p < 2 \<Longrightarrow> ucs_config_parser_get_sub_prefix p = Inl UCS_ERR_INVALID_PARAM"
  unfolding ucs_config_parser_get_sub_prefix_def Let_def by simp

text \<open>
  Claim C6, as stated: a prefix without \<^verbatim>\<open>_\<close> separators is a silent no-op, with no
  error returned. The one-character prefix \<^verbatim>\<open>X\<close> has no separator, and the length
  guard rejects it.
\<close>

theorem C6_short_prefix_counterexample:
  "CHR ''_'' \<notin> set ''X'' \<and> ucs_config_parser_get_sub_prefix ''X'' = Inl UCS_ERR_INVALID_PARAM"
  by (simp add: ucs_config_parser_get_sub_prefix_def)

text \<open>
  Claim C6, amended: for \<^verbatim>\<open><A>_<B>_\<close> with a non-empty \<^verbatim>\<open><B>\<close> that holds no
  \<^verbatim>\<open>_\<close> the sub-prefix is \<^verbatim>\<open><B>_\<close>; a single segment \<^verbatim>\<open><A>_\<close> (non-empty, no
  \<^verbatim>\<open>_\<close> inside) has no sub-prefix; a prefix without \<^verbatim>\<open>_\<close> has no sub-prefix and no
  error when it is at least two characters long, and is rejected with
  \<^verbatim>\<open>UCS_ERR_INVALID_PARAM\<close> when it is shorter.
\<close>

theorem C6_sub_prefix:
  "(B \<noteq> [] \<and> CHR ''_'' \<notin> set B \<longrightarrow>
      ucs_config_parser_get_sub_prefix (A @ ''_'' @ B @ ''_'') = Inr (Some (B @ ''_'')))
   \<and> (A \<noteq> [] \<and> CHR ''_'' \<notin> set A \<longrightarrow>
      ucs_config_parser_get_sub_prefix (A @ ''_'') = Inr None)
   \<and> (CHR ''_'' \<notin> set p \<longrightarrow>
      ucs_config_parser_get_sub_prefix p =
        (if length p < 2 then Inl UCS_ERR_INVALID_PARAM else Inr None))"
proof (intro conjI impI)
  assume "B \<noteq> [] \<and> CHR ''_'' \<notin> set B"
  then show "ucs_config_parser_get_sub_prefix (A @ ''_'' @ B @ ''_'') = Inr (Some (B @ ''_''))"
    by (intro sub_prefix_two_segments) simp_all
next
  assume a: "A \<noteq> [] \<and> CHR ''_'' \<notin> set A"
  have "(A @ ''_'') ! j \<noteq> CHR ''_''" if "j < length (A @ ''_'') - 2" for j
  proof -
    from that have "j < length A" by simp
    then have "(A @ ''_'') ! j = A ! j" and "A ! j \<in> set A"
      by (simp_all add: nth_append)
    with a show ?thesis by metis
  qed
  moreover from a have "2 \<le> length (A @ ''_'')" by (cases A) simp_all
  ultimately show "ucs_config_parser_get_sub_prefix (A @ ''_'') = Inr None"
    by (intro sub_prefix_no_separator)
next
  assume n: "CHR ''_'' \<notin> set p"
  show "ucs_config_parser_get_sub_prefix p =
          (if length p < 2 then Inl UCS_ERR_INVALID_PARAM else Inr None)"
  proof (cases "length p < 2")
    case True
    then show ?thesis by (simp add: sub_prefix_too_short)
  next
    case False
    have "p ! j \<noteq> CHR ''_''" if "j < length p - 2" for j
    proof -
      from that have "p ! j \<in> set p" by (intro nth_mem) arith
      with n show ?thesis by metis
    qed
    with False show ?thesis by (simp add: sub_prefix_no_separator)
  qed
qed

theorem C6_sub_prefix_witness:
  "ucs_config_parser_get_sub_prefix ''UCX_FOO_'' = Inr (Some ''FOO_'')
   \<and> ucs_config_parser_get_sub_prefix ''UCX_'' = Inr None
   \<and> ucs_config_parser_get_sub_prefix ''UCX'' = Inr None"
proof -
  note t = C6_sub_prefix [of "''FOO''" "''UCX''" "''UCX''"]
  have a: "''FOO'' \<noteq> [] \<and> CHR ''_'' \<notin> set ''FOO''" by simp
  have b: "''UCX'' \<noteq> [] \<and> CHR ''_'' \<notin> set ''UCX''" by simp
  have c: "\<not> length ''UCX'' < 2" by simp
  from t a have "ucs_config_parser_get_sub_prefix (''UCX'' @ ''_'' @ ''FOO'' @ ''_'')
      = Inr (Some (''FOO'' @ ''_''))" by blast
  moreover from t b have "ucs_config_parser_get_sub_prefix (''UCX'' @ ''_'') = Inr None"
    by blast
  moreover from t b have "ucs_config_parser_get_sub_prefix ''UCX'' =
      (if length ''UCX'' < 2 then Inl UCS_ERR_INVALID_PARAM else Inr None)" by blast
  ultimately show ?thesis using c by simp
qed


section \<open>Properties of the default marker\<close>

text \<open>
  Claim C9: with \<^verbatim>\<open>COMMENT_DEFAULT\<close> a field's line starts with \<^verbatim>\<open># \<close> exactly
  when neither the environment nor the file map holds the fully-qualified name. The code
  looks the file map up under the bare field name. With the file entry \<^verbatim>\<open>UCX_TLS=tcp\<close>
  applied to the field \<^verbatim>\<open>TLS\<close> under the prefix \<^verbatim>\<open>UCX_\<close>, the line is still marked
  as a default; with a file entry named \<^verbatim>\<open>TLS\<close>, which overrides nothing under that
  prefix, the mark is dropped.
\<close>

theorem C9_file_override_marked_default:
  "snd (ucs_config_parser_print_field Map.empty [''UCX_TLS'' \<mapsto> ''tcp'']
          (\<lambda>a. VString (Some ''tcp'')) 0 ''UCX_'' [[]] ''TLS'' 0 (config_type_string ''string'')
          \<lparr>UCS_CONFIG_PRINT_CONFIG = True, UCS_CONFIG_PRINT_HEADER = False,
           UCS_CONFIG_PRINT_DOC = False, UCS_CONFIG_PRINT_HIDDEN = False,
           UCS_CONFIG_PRINT_COMMENT_DEFAULT = True\<rparr> ''title'' None None [])
     = [''# UCX_TLS=tcp'']
   \<and> snd (ucs_config_parser_print_field Map.empty [''TLS'' \<mapsto> ''tcp'']
          (\<lambda>a. VString (Some ''all'')) 0 ''UCX_'' [[]] ''TLS'' 0 (config_type_string ''string'')
          \<lparr>UCS_CONFIG_PRINT_CONFIG = True, UCS_CONFIG_PRINT_HEADER = False,
           UCS_CONFIG_PRINT_DOC = False, UCS_CONFIG_PRINT_HIDDEN = False,
           UCS_CONFIG_PRINT_COMMENT_DEFAULT = True\<rparr> ''title'' None None [])
     = [''UCX_TLS=all'']"
  by (simp add: ucs_config_parser_print_field_def ucs_config_parser_is_default_def
      snprintf_buf_def UCS_CONFIG_DEPRECATED_FIELD_OFFSET_def config_type_string_def
      ucs_config_sprintf_string_def strncpy_buf_def Let_def)


section \<open>Properties of the scalar parsers\<close>

































section \<open>Properties of the array parser\<close>

lemma strtok_tokens_Cons:
  "strtok_tokens d s = t # ts \<Longrightarrow> \<exists>rest. strtok_r d s = Some (t, rest) \<and> ts = strtok_tokens d rest"
  by (subst (asm) strtok_tokens.simps) (auto split: option.splits)

lemma sscanf_array_loop_fill:
  assumes "i + k = array_max" and "0 < k" and "length temp = array_max"
    and "\<And>j. i \<le> j \<Longrightarrow> j < array_max \<Longrightarrow> temp ! j = zero"
    and "k \<le> length (t # strtok_tokens CHR '','' rest)"
    and "\<And>j. j < k \<Longrightarrow>
           fst (parser_read elem ((t # strtok_tokens CHR '','' rest) ! j) zero) \<noteq> 0"
  shows "sscanf_array_loop elem array_max (Some (t, rest)) temp i =
           Some (take i temp @ map (\<lambda>token. snd (parser_read elem token zero))
                                   (take k (t # strtok_tokens CHR '','' rest)),
                 array_max)"
  using assms
proof (induction k arbitrary: i temp t rest)
  case 0
  then show ?case by simp
next
  case (Suc k)
  obtain ret e where rd: "parser_read elem t zero = (ret, e)"
    by (cases "parser_read elem t zero")
  from Suc.prems(6) [of 0] rd have ret: "ret \<noteq> 0" by simp
  have ti: "temp ! i = zero" using Suc.prems(1,4) by simp
  have ilen: "i < length temp" using Suc.prems(1,3) by simp
  show ?case
  proof (cases "k = 0")
    case True
    with Suc.prems(1) have last: "array_max = i + 1" by simp
    have "temp[i := e] = take i temp @ [e]"
      using ilen Suc.prems(3) last by (simp add: upd_conv_take_nth_drop)
    then show ?thesis
      using True rd ret ti last
      by (subst sscanf_array_loop.simps) simp
  next
    case False
    then have more: "\<not> array_max \<le> i + 1" using Suc.prems(1) by simp
    from False Suc.prems(5) obtain t' ts where ts: "strtok_tokens CHR '','' rest = t' # ts"
      by (cases "strtok_tokens CHR '','' rest") auto
    then obtain rest' where tok: "strtok_r CHR '','' rest = Some (t', rest')"
      and ts': "ts = strtok_tokens CHR '','' rest'"
      using strtok_tokens_Cons by blast
    have ih: "sscanf_array_loop elem array_max (Some (t', rest')) (temp[i := e]) (Suc i) =
           Some (take (Suc i) (temp[i := e]) @ map (\<lambda>token. snd (parser_read elem token zero))
                                   (take k (t' # strtok_tokens CHR '','' rest')),
                 array_max)"
    proof (rule Suc.IH)
      show "Suc i + k = array_max" using Suc.prems(1) by simp
      show "0 < k" using False by simp
      show "length (temp[i := e]) = array_max" using Suc.prems(3) by simp
      show "temp[i := e] ! j = zero" if "Suc i \<le> j" "j < array_max" for j
        using that Suc.prems(4) [of j] by simp
      show "k \<le> length (t' # strtok_tokens CHR '','' rest')"
        using Suc.prems(5) ts ts' by simp
      show "fst (parser_read elem ((t' # strtok_tokens CHR '','' rest') ! j) zero) \<noteq> 0"
        if "j < k" for j
        using Suc.prems(6) [of "Suc j"] that ts ts' by simp
    qed
    have tk: "take (Suc i) (temp[i := e]) = take i temp @ [e]"
      using ilen by (simp add: take_Suc_conv_app_nth)
    show ?thesis
      using rd ret ti more tok ih tk ts ts'
      by (subst sscanf_array_loop.simps) simp
  qed
qed

text \<open>
  Claim C7: when the text has more than \<^verbatim>\<open>UCS_CONFIG_ARRAY_MAX\<close> comma-separated
  tokens and the element parser accepts each of the first \<^verbatim>\<open>UCS_CONFIG_ARRAY_MAX\<close>
  (its \<^verbatim>\<open>read\<close> returns non-zero, which is what the array parser tests), the array
  parser reads exactly these tokens, each into a zeroed element, sets the count to
  \<^verbatim>\<open>UCS_CONFIG_ARRAY_MAX\<close> and returns 1.
\<close>

theorem C7_array_stops_at_max:
  assumes "0 < array_max"
    and "array_max < length (strtok_tokens CHR '','' buf)"
    and "\<forall>j < array_max. fst (parser_read elem (strtok_tokens CHR '','' buf ! j) zero) \<noteq> 0"
  shows "ucs_config_sscanf_array elem zero array_max buf field =
           (1, \<lparr>array_data = map (\<lambda>token. snd (parser_read elem token zero))
                                (take array_max (strtok_tokens CHR '','' buf)),
                array_count = array_max\<rparr>)"
proof -
  from assms(1,2) obtain t ts where ts: "strtok_tokens CHR '','' buf = t # ts"
    by (cases "strtok_tokens CHR '','' buf") auto
  then obtain rest where tok: "strtok_r CHR '','' buf = Some (t, rest)"
    and ts': "ts = strtok_tokens CHR '','' rest"
    using strtok_tokens_Cons by blast
  have "sscanf_array_loop elem array_max (Some (t, rest)) (replicate array_max zero) 0 =
          Some (take 0 (replicate array_max zero) @
                  map (\<lambda>token. snd (parser_read elem token zero))
                    (take array_max (t # strtok_tokens CHR '','' rest)),
                array_max)"
  proof (rule sscanf_array_loop_fill)
    show "0 + array_max = array_max" by simp
    show "0 < array_max" by (rule assms(1))
    show "length (replicate array_max zero) = array_max" by simp
    show "replicate array_max zero ! j = zero" if "j < array_max" for j
      using that by simp
    show "array_max \<le> length (t # strtok_tokens CHR '','' rest)"
      using assms(2) ts ts' by simp
    show "fst (parser_read elem ((t # strtok_tokens CHR '','' rest) ! j) zero) \<noteq> 0"
      if "j < array_max" for j
      using assms(3) that ts ts' by simp
  qed
  then show ?thesis
    using tok ts ts' by (simp add: ucs_config_sscanf_array_def)
qed

lemma tokens_789: "strtok_tokens CHR '','' ''7,8,9'' = [''7'', ''8'', ''9'']"
  by (simp add: strtok_tokens.simps strtok_r_def)

lemma read_digit:
  "parser_read (config_type_uint h) ''7'' (VUint 0) = (1, VUint 7)"
  "parser_read (config_type_uint h) ''8'' (VUint 0) = (1, VUint 8)"
  by (simp_all add: config_type_uint_def ucs_config_sscanf_uint_def strcasecmp_eq_def
      UCS_NUMERIC_INF_STR_def sscanf_u_def isspace_def digit_val_def digits_value_def)

theorem C7_array_stops_at_max_witness:
  "ucs_config_sscanf_array (config_type_uint ''unsigned integer'') (VUint 0) 2 ''7,8,9''
     \<lparr>array_data = [], array_count = 0\<rparr>
   = (1, \<lparr>array_data = [VUint 7, VUint 8], array_count = 2\<rparr>)"
proof -
  have h1: "(0::nat) < 2" by simp
  have h2: "2 < length (strtok_tokens CHR '','' ''7,8,9'')" by (simp add: tokens_789)
  have h3: "\<forall>j < 2. fst (parser_read (config_type_uint ''unsigned integer'')
                           (strtok_tokens CHR '','' ''7,8,9'' ! j) (VUint 0)) \<noteq> 0"
    by (simp add: tokens_789 less_Suc_eq numeral_2_eq_2 read_digit)
  show ?thesis
    using C7_array_stops_at_max [OF h1 h2 h3, of "\<lparr>array_data = [], array_count = 0\<rparr>"]
    by (simp add: tokens_789 read_digit)
qed


section \<open>Properties of the field resolver\<close>





lemma uint_reads:
  "parser_read (config_type_uint h) ''5'' slot = (1, VUint 5)"
  "parser_read (config_type_uint h) ''banana'' slot = (0, slot)"
  by (simp_all add: config_type_uint_def ucs_config_sscanf_uint_def strcasecmp_eq_def
      UCS_NUMERIC_INF_STR_def sscanf_u_def isspace_def digit_val_def digits_value_def)

lemma uint_parser_simps:
  "parser_release (config_type_uint h) slot = slot"
  "parser_write (config_type_uint h) buf max_len slot
     = ucs_config_sprintf_uint max_len (as_uint slot)"
  by (simp_all add: config_type_uint_def)










section \<open>Properties of reading a value back\<close>

lemma get_value_loop_append:
  "get_value_loop opts (pre @ fs) name has_value buf max_len m =
     (if fst (get_value_loop opts pre name has_value buf max_len m) = UCS_ERR_NO_ELEM
      then get_value_loop opts fs name has_value buf max_len m
      else get_value_loop opts pre name has_value buf max_len m)"
proof (induction pre)
  case Nil
  then show ?case by simp
next
  case (Cons f pre)
  show ?case
  proof (cases f)
    case (Field n d off p)
    then show ?thesis using Cons.IH by simp
  next
    case (TableField n d off sub)
    show ?thesis
    proof (cases "\<not> has_value \<and> 0 < max_len")
      case True
      then show ?thesis using TableField Cons.IH by simp
    next
      case False
      obtain st b where
        r: "get_value_loop (opts + off) sub (drop (length n) name) has_value buf max_len m = (st, b)"
        by (cases "get_value_loop (opts + off) sub (drop (length n) name) has_value buf max_len m")
      from False r show ?thesis using TableField Cons.IH by auto
    qed
  qed
qed

lemma strncmp_eq_prefix: "strncmp_eq (name @ rest) name (length name)"
  by (simp add: strncmp_eq_def)

lemma sprintf_uint_small:
  "ucs_config_sprintf_uint 256 7 = (1, ''7'')"
  "ucs_config_sprintf_uint 256 9 = (1, ''9'')"
  by (simp_all add: ucs_config_sprintf_uint_def UINT_MAX_def snprintf_buf_def
      snprintf_u_digits.simps digit_char_def)

text \<open>
  Claim C10, as stated: the value written is that of the first field that is not a table
  and whose name begins with the requested name. For the name \<^verbatim>\<open>IB_Q\<close> that field is
  \<^verbatim>\<open>IB_QP\<close>, with the value 9; the table \<^verbatim>\<open>IB_\<close> in front of it is searched for
  \<^verbatim>\<open>Q\<close> first, and the value written is the 7 of its field \<^verbatim>\<open>QKEY\<close>.
\<close>

theorem C10_sub_table_first_counterexample:
  "ucs_config_parser_get_value 0
     [TableField ''IB_'' (Some []) 0 [Field ''QKEY'' (Some ''0'') 0 (config_type_uint [])],
      Field ''IB_QP'' (Some ''1'') 1 (config_type_uint [])]
     ''IB_Q'' True [] 256 ((\<lambda>a. VUint 0)(0 := VUint 7, 1 := VUint 9))
   = (UCS_OK, Written ''7'')
   \<and> snd (parser_write (config_type_uint []) [] 256
            (((\<lambda>a. VUint 0)(0 := VUint 7, 1 := VUint 9)) (0 + 1 :: nat))) = ''9''"
  by (simp add: ucs_config_parser_get_value_def strncmp_eq_def config_type_uint_def
      sprintf_uint_small)

text \<open>
  Claim C10, amended: \<^verbatim>\<open>get_value\<close> matches names by prefix, scanning the list in
  order. When the scan of the earlier fields finds nothing, a field that is not a table
  and whose name begins with the requested name (a strict prefix of the declared name is
  enough) ends the search with \<^verbatim>\<open>UCS_OK\<close> and its rendered value in the buffer; and a
  table field whose name is a prefix of the requested name ends it with the result of
  searching the sub-table for the rest of the name, when that search finds something
  there.
\<close>

theorem C10_get_value_prefix_match:
  assumes "fst (get_value_loop opts pre name True buf max_len m) = UCS_ERR_NO_ELEM"
  shows "(n = name @ rest \<longrightarrow>
            ucs_config_parser_get_value opts (pre @ Field n d off p # post) name True buf max_len m
            = (UCS_OK, Written (snd (parser_write p buf max_len (m (opts + off))))))
         \<and> (name = tn @ rest_name
              \<and> fst (get_value_loop (opts + toff) sub rest_name True buf max_len m) \<noteq> UCS_ERR_NO_ELEM
            \<longrightarrow>
            ucs_config_parser_get_value opts (pre @ TableField tn td toff sub # post) name True buf
              max_len m
            = get_value_loop (opts + toff) sub rest_name True buf max_len m)"
proof (intro conjI impI)
  assume "n = name @ rest"
  then have "strncmp_eq n name (length name)" by (simp add: strncmp_eq_prefix)
  then show "ucs_config_parser_get_value opts (pre @ Field n d off p # post) name True buf max_len m
            = (UCS_OK, Written (snd (parser_write p buf max_len (m (opts + off)))))"
    using assms by (simp add: ucs_config_parser_get_value_def get_value_loop_append)
next
  assume a: "name = tn @ rest_name
      \<and> fst (get_value_loop (opts + toff) sub rest_name True buf max_len m) \<noteq> UCS_ERR_NO_ELEM"
  then have "strncmp_eq tn name (length tn)" and "drop (length tn) name = rest_name"
    by (simp_all add: strncmp_eq_def)
  moreover obtain st b where
    r: "get_value_loop (opts + toff) sub rest_name True buf max_len m = (st, b)"
    by (cases "get_value_loop (opts + toff) sub rest_name True buf max_len m")
  moreover from a r have "st \<noteq> UCS_ERR_NO_ELEM" by simp
  ultimately show "ucs_config_parser_get_value opts (pre @ TableField tn td toff sub # post) name True buf
              max_len m
            = get_value_loop (opts + toff) sub rest_name True buf max_len m"
    using assms
    by (simp add: ucs_config_parser_get_value_def get_value_loop_append)
qed

theorem C10_get_value_prefix_match_witness:
  "ucs_config_parser_get_value 0
     ([Field ''MODE'' (Some ''0'') 0 (config_type_uint [])]
      @ Field ''QKEY'' (Some ''0'') 1 (config_type_uint []) # [])
     ''QK'' True [] 256 ((\<lambda>a. VUint 0)(1 := VUint 7))
   = (UCS_OK, Written ''7'')
   \<and> ucs_config_parser_get_value 0
     ([Field ''MODE'' (Some ''0'') 0 (config_type_uint [])]
      @ TableField ''IB_'' (Some []) 1 [Field ''QKEY'' (Some ''0'') 0 (config_type_uint [])] # [])
     ''IB_QK'' True [] 256 ((\<lambda>a. VUint 0)(1 := VUint 7))
   = (UCS_OK, Written ''7'')"
proof -
  let ?m = "(\<lambda>a. VUint 0)(1 := VUint 7) :: nat \<Rightarrow> config_value"
  let ?sub = "[Field ''QKEY'' (Some ''0'') 0 (config_type_uint [])]"
  have pre1: "fst (get_value_loop 0 [Field ''MODE'' (Some ''0'') 0 (config_type_uint [])]
                ''QK'' True [] 256 ?m) = UCS_ERR_NO_ELEM"
    by (simp add: strncmp_eq_def)
  have pre2: "fst (get_value_loop 0 [Field ''MODE'' (Some ''0'') 0 (config_type_uint [])]
                ''IB_QK'' True [] 256 ?m) = UCS_ERR_NO_ELEM"
    by (simp add: strncmp_eq_def)
  have n: "''QKEY'' = ''QK'' @ ''EY''" by simp
  have sub: "get_value_loop (0 + 1) ?sub ''QK'' True [] 256 ?m = (UCS_OK, Written ''7'')"
    by (simp add: strncmp_eq_def config_type_uint_def sprintf_uint_small)
  have tn: "''IB_QK'' = ''IB_'' @ ''QK''
      \<and> fst (get_value_loop (0 + 1) ?sub ''QK'' True [] 256 ?m) \<noteq> UCS_ERR_NO_ELEM"
    unfolding sub by simp
  have w: "(UCS_OK, Written (snd (parser_write (config_type_uint []) [] 256 (?m (0 + 1)))))
           = (UCS_OK, Written ''7'')"
    by (simp add: config_type_uint_def sprintf_uint_small)
  note t1 = C10_get_value_prefix_match [OF pre1, where n = "''QKEY''" and rest = "''EY''"
      and d = "Some ''0''" and off = 1 and p = "config_type_uint []" and post = "[]",
      THEN conjunct1, rule_format, OF n]
  note t2 = C10_get_value_prefix_match [OF pre2, where tn = "''IB_''" and rest_name = "''QK''"
      and td = "Some []" and toff = 1 and sub = ?sub and post = "[]",
      THEN conjunct2, rule_format, OF tn]
  show ?thesis
    by (intro conjI) (rule trans [OF t1 w], rule trans [OF t2 sub])
qed


section \<open>What the traversals leave unchanged\<close>

lemma parse_field_frame:
  "a \<noteq> var \<Longrightarrow> snd (ucs_config_parser_parse_field p v var m) a = m a"
  by (simp add: ucs_config_parser_parse_field_def split: prod.splits)

lemma release_field_frame:
  "a \<noteq> var \<Longrightarrow> ucs_config_parser_release_field p var m a = m a"
  by (simp add: ucs_config_parser_release_field_def)

lemma svi_finish_mem:
  "snd (svi_finish (Inl (st, m))) = m" "snd (svi_finish (Inr (c, vb, m))) = m"
  by (simp_all add: svi_finish_def)

lemma svi_sub_cases:
  "svi_sub c res = Inl r \<Longrightarrow> snd r = snd res"
  "svi_sub c res = Inr (c', m') \<Longrightarrow> m' = snd res"
  by (cases res; simp add: svi_sub_def split: if_splits; fastforce)+

lemma svi_loop_frame:
  "a \<notin> field_addrs opts fs \<Longrightarrow>
   snd (svi_finish (svi_loop fnm opts fs name val tp rec c vb m)) a = m a"
proof (induction fnm opts fs name val tp rec c vb m rule: svi_loop.induct)
  case (1 fnm opts name val table_prefix recurse count value_buf m)
  then show ?case by (simp add: svi_finish_def)
next
  case (2 fnm opts n d off sub fs name val table_prefix recurse count value_buf m)
  from "2.prems" have a1: "a \<notin> field_addrs (opts + off) sub" and a2: "a \<notin> field_addrs opts fs"
    by simp_all
  let ?r1 = "if recurse
             then svi_sub count
                    (svi_finish (svi_loop fnm (opts + off) sub name val (Some n) True 0 [] m))
             else Inr (count, m)"
  have sub1: "snd (svi_finish (svi_loop fnm (opts + off) sub name val (Some n) True 0 [] m)) a
              = m a" if recurse
    using "2.IH"(1) [OF that a1] .
  show ?case
  proof (cases ?r1)
    case (Inl res)
    then have l: "svi_loop fnm opts (TableField n d off sub # fs) name val table_prefix recurse
                 count value_buf m = Inl res"
      by (simp only: svi_loop.simps sum.case)
    from Inl have "recurse" by (simp split: if_splits)
    with Inl sub1 svi_sub_cases(1) [of count _ res] have "snd res a = m a"
      by (simp split: if_splits)
    with l show ?thesis by (cases res) (simp add: svi_finish_def)
  next
    case (Inr cm1)
    obtain c1 mm1 where cm1: "cm1 = (c1, mm1)" by (cases cm1)
    have mm1: "mm1 a = m a"
    proof (cases recurse)
      case True
      with Inr cm1 svi_sub_cases(2) [of count _ c1 mm1] sub1 show ?thesis by simp
    next
      case False
      with Inr cm1 show ?thesis by simp
    qed
    let ?r2 = "if table_prefix \<noteq> None
               then svi_sub c1
                      (svi_finish
                         (svi_loop fnm (opts + off) sub name val table_prefix False 0 [] mm1))
               else Inr (c1, mm1)"
    have sub2: "snd (svi_finish
                       (svi_loop fnm (opts + off) sub name val table_prefix False 0 [] mm1)) a
                = mm1 a" if "table_prefix \<noteq> None"
      using "2.IH"(2) [OF Inr cm1 [symmetric] that a1] .
    show ?thesis
    proof (cases ?r2)
      case (Inl res)
      then have l: "svi_loop fnm opts (TableField n d off sub # fs) name val table_prefix recurse
                   count value_buf m = Inl res"
        using Inr by (simp only: svi_loop.simps sum.case cm1 prod.case)
      from Inl have tp: "table_prefix \<noteq> None" by (simp split: if_splits)
      with Inl sub2 svi_sub_cases(1) [of c1 _ res] mm1 have "snd res a = m a"
        by (simp split: if_splits)
      with l show ?thesis by (cases res) (simp add: svi_finish_def)
    next
      case r2: (Inr cm2)
      obtain c2 mm2 where cm2: "cm2 = (c2, mm2)" by (cases cm2)
      have mm2: "mm2 a = m a"
      proof (cases "table_prefix \<noteq> None")
        case True
        with r2 cm2 svi_sub_cases(2) [of c1 _ c2 mm2] sub2 mm1 show ?thesis by simp
      next
        case False
        with r2 cm2 mm1 show ?thesis by simp
      qed
      have "svi_loop fnm opts (TableField n d off sub # fs) name val table_prefix recurse
              count value_buf m = svi_loop fnm opts fs name val table_prefix recurse c2 value_buf mm2"
        using Inr r2 by (simp only: svi_loop.simps sum.case cm1 cm2 prod.case)
      with "2.IH"(3) [OF Inr cm1 [symmetric] r2 cm2 [symmetric] a2] mm2
      show ?thesis by simp
    qed
  qed
next
  case (3 fnm opts n d off p fs name val table_prefix recurse count value_buf m)
  show ?case
  proof (cases "ucs_config_prefix_name_match fnm table_prefix n name")
    case False
    with "3.IH"(2) "3.prems" show ?thesis by (simp split: if_splits)
  next
    case True
    show ?thesis
    proof (cases "off = UCS_CONFIG_DEPRECATED_FIELD_OFFSET")
      case dep: True
      with True show ?thesis by (simp add: svi_finish_def)
    next
      case False
      with "3.prems" have ne: "a \<noteq> opts + off" and a2: "a \<notin> field_addrs opts fs"
        by simp_all
      let ?m1 = "ucs_config_parser_release_field p (opts + off) m"
      obtain st m2 where pf: "ucs_config_parser_parse_field p val (opts + off) ?m1 = (st, m2)"
        by (cases "ucs_config_parser_parse_field p val (opts + off) ?m1")
      have m2: "m2 a = m a"
        using parse_field_frame [OF ne, of p val ?m1] pf release_field_frame [OF ne, of p m]
        by simp
      show ?thesis
      proof (cases "st = UCS_OK")
        case ok: True
        with True False pf "3.IH"(1) [OF True False refl refl refl pf [symmetric] _ a2] m2
        show ?thesis by (simp add: Let_def)
      next
        case bad: False
        with True False pf m2
          parse_field_frame [OF ne, of p "snd (parser_write p value_buf 255 (m (opts + off)))" m2]
        show ?thesis by (simp add: Let_def svi_finish_def)
      qed
    qed
  qed
qed

lemma set_value_internal_frame:
  "a \<notin> field_addrs opts fs \<Longrightarrow>
   snd (ucs_config_parser_set_value_internal fnm opts fs name val tp rec m) a = m a"
  by (simp add: ucs_config_parser_set_value_internal_def svi_loop_frame)

lemma sscanf_table_loop_frame:
  "a \<notin> field_addrs dest arg \<Longrightarrow> snd (sscanf_table_loop fnm dest arg tokens m) a = m a"
proof (induction fnm dest arg tokens m rule: sscanf_table_loop.induct)
  case (1 fnm dest arg tokens m)
  show ?case
  proof (cases "strtok_r CHR '';'' tokens")
    case None
    then show ?thesis by (subst sscanf_table_loop.simps) simp
  next
    case (Some x2)
    obtain token saveptr1 where x2: "x2 = (token, saveptr1)" by (cases x2)
    show ?thesis
    proof (cases "strtok_r CHR ''='' token")
      case None
      with Some x2 show ?thesis by (subst sscanf_table_loop.simps) simp
    next
      case n: (Some x2a)
      obtain name saveptr2 where x2a: "x2a = (name, saveptr2)" by (cases x2a)
      show ?thesis
      proof (cases "strtok_r CHR ''='' saveptr2")
        case None
        with Some x2 n x2a show ?thesis by (subst sscanf_table_loop.simps) simp
      next
        case v: (Some x2b)
        obtain val saveptr3 where x2b: "x2b = (val, saveptr3)" by (cases x2b)
        obtain st m' where
          sv: "ucs_config_parser_set_value_internal fnm dest arg name val None True m = (st, m')"
          by (cases "ucs_config_parser_set_value_internal fnm dest arg name val None True m")
        have m': "m' a = m a"
          using set_value_internal_frame [OF "1.prems", of fnm name val None True m] sv by simp
        show ?thesis
        proof (cases "st = UCS_OK")
          case True
          with "1.IH" [OF Some x2 [symmetric] n x2a [symmetric] v x2b [symmetric] sv [symmetric] _
              "1.prems"] m'
          have "snd (sscanf_table_loop fnm dest arg saveptr1 m') a = m a" by simp
          with Some x2 n x2a v x2b sv True show ?thesis
            by (subst sscanf_table_loop.simps) simp
        next
          case False
          with Some x2 n x2a v x2b sv m' show ?thesis
            by (subst sscanf_table_loop.simps) simp
        qed
      qed
    qed
  qed
qed

lemma parse_table_field_frame:
  "a \<notin> field_addrs var sub \<Longrightarrow> snd (parse_table_field fnm sub val var m) a = m a"
proof -
  assume a: "a \<notin> field_addrs var sub"
  obtain ret m' where r: "sscanf_table_loop fnm var sub val m = (ret, m')"
    by (cases "sscanf_table_loop fnm var sub val m")
  with sscanf_table_loop_frame [OF a, of fnm val m] have "m' a = m a" by simp
  with r show ?thesis
    by (simp add: parse_table_field_def ucs_config_sscanf_table_def)
qed

lemma set_default_values_frame:
  "a \<notin> field_addrs opts fs \<Longrightarrow>
   snd (ucs_config_parser_set_default_values fnm opts fs m) a = m a"
proof (induction fnm opts fs m rule: ucs_config_parser_set_default_values.induct)
  case (1 fnm opts m)
  then show ?case by simp
next
  case (2 fnm opts n off p fs m)
  then show ?case by (simp split: if_splits)
next
  case (3 fnm opts n off sub fs m)
  then show ?case by simp
next
  case (4 fnm opts n dfl off p fs m)
  show ?case
  proof (cases "off = UCS_CONFIG_DEPRECATED_FIELD_OFFSET")
    case True
    with "4.IH"(1) "4.prems" show ?thesis by simp
  next
    case False
    with "4.prems" have ne: "a \<noteq> opts + off" and a2: "a \<notin> field_addrs opts fs"
      by simp_all
    obtain st m1 where pf: "ucs_config_parser_parse_field p dfl (opts + off) m = (st, m1)"
      by (cases "ucs_config_parser_parse_field p dfl (opts + off) m")
    have m1: "m1 a = m a" using parse_field_frame [OF ne, of p dfl m] pf by simp
    show ?thesis
    proof (cases "st = UCS_OK")
      case True
      with False pf m1 "4.IH"(2) [OF False pf [symmetric] _ a2] show ?thesis by simp
    next
      case bad: False
      with False pf m1 show ?thesis by simp
    qed
  qed
next
  case (5 fnm opts n dfl off sub fs m)
  from "5.prems" have a1: "a \<notin> field_addrs (opts + off) sub" and a2: "a \<notin> field_addrs opts fs"
    by simp_all
  show ?case
  proof (cases "off = UCS_CONFIG_DEPRECATED_FIELD_OFFSET")
    case True
    with "5.IH"(1) a2 show ?thesis by simp
  next
    case False
    obtain st m1 where
      sd: "ucs_config_parser_set_default_values fnm (opts + off) sub m = (st, m1)"
      by (cases "ucs_config_parser_set_default_values fnm (opts + off) sub m")
    have m1: "m1 a = m a" using "5.IH"(2) [OF False a1] sd by simp
    show ?thesis
    proof (cases "st = UCS_OK")
      case bad: False
      with False sd m1 show ?thesis by simp
    next
      case True
      obtain st2 m2 where pt: "parse_table_field fnm sub dfl (opts + off) m1 = (st2, m2)"
        by (cases "parse_table_field fnm sub dfl (opts + off) m1")
      have m2: "m2 a = m a"
        using parse_table_field_frame [OF a1, of fnm dfl m1] pt m1 by simp
      show ?thesis
      proof (cases "st2 = UCS_OK")
        case bad: False
        with False sd True pt m2 show ?thesis by simp
      next
        case ok: True
        with False sd True pt m2 "5.IH"(3) [OF False sd [symmetric] _ pt [symmetric] _ a2]
        show ?thesis by simp
      qed
    qed
  qed
qed

lemma set_default_values_append:
  "ucs_config_parser_set_default_values fnm opts (pre @ rest) m =
     (case ucs_config_parser_set_default_values fnm opts pre m of
        (status, m1) \<Rightarrow>
          if status \<noteq> UCS_OK then (status, m1)
          else ucs_config_parser_set_default_values fnm opts rest m1)"
proof (induction fnm opts pre m rule: ucs_config_parser_set_default_values.induct)
  case (1 fnm opts m)
  then show ?case by simp
next
  case (2 fnm opts n off p fs m)
  then show ?case by simp
next
  case (3 fnm opts n off sub fs m)
  then show ?case by simp
next
  case (4 fnm opts n dfl off p fs m)
  then show ?case by (simp split: prod.splits)
next
  case (5 fnm opts n dfl off sub fs m)
  then show ?case by (simp split: prod.splits)
qed

lemma apply_config_vars_append:
  "ucs_config_apply_config_vars env opts (pre @ rest) prefix tp rec ign s =
     (case ucs_config_apply_config_vars env opts pre prefix tp rec ign s of
        (status, s1) \<Rightarrow>
          if status \<noteq> UCS_OK then (status, s1)
          else ucs_config_apply_config_vars env opts rest prefix tp rec ign s1)"
proof (induction pre arbitrary: s)
  case Nil
  then show ?case by simp
next
  case (Cons f pre)
  show ?case
  proof (cases f)
    case (Field n d off p)
    then show ?thesis
      using Cons.IH by (simp add: Let_def split: option.splits prod.splits)
  next
    case (TableField n d off sub)
    obtain st1 s1 where
      r1: "(if rec then ucs_config_apply_config_vars env (opts + off) sub prefix (Some n) True ign s
            else (UCS_OK, s)) = (st1, s1)"
      by (cases "if rec then ucs_config_apply_config_vars env (opts + off) sub prefix (Some n) True ign s
            else (UCS_OK, s)")
    obtain st2 s2 where
      r2: "(if tp \<noteq> None
            then ucs_config_apply_config_vars env (opts + off) sub prefix tp False ign s1
            else (UCS_OK, s1)) = (st2, s2)"
      by (cases "if tp \<noteq> None
            then ucs_config_apply_config_vars env (opts + off) sub prefix tp False ign s1
            else (UCS_OK, s1)")
    have l: "ucs_config_apply_config_vars env opts (f # pre @ rest) prefix tp rec ign s =
          (if st1 \<noteq> UCS_OK then (st1, s1)
           else if st2 \<noteq> UCS_OK then (st2, s2)
           else ucs_config_apply_config_vars env opts (pre @ rest) prefix tp rec ign s2)"
      by (simp only: TableField ucs_config_apply_config_vars.simps r1 r2 prod.case)
    have r: "ucs_config_apply_config_vars env opts (f # pre) prefix tp rec ign s =
          (if st1 \<noteq> UCS_OK then (st1, s1)
           else if st2 \<noteq> UCS_OK then (st2, s2)
           else ucs_config_apply_config_vars env opts pre prefix tp rec ign s2)"
      by (simp only: TableField ucs_config_apply_config_vars.simps r1 r2 prod.case)
    show ?thesis
      unfolding append_Cons l r using Cons.IH [of s2] by simp
  qed
qed

lemma mark_used_simps:
  "slots (ucs_config_parser_mark_env_var_used b s) = slots s"
  "ucs_config_file_vars (ucs_config_parser_mark_env_var_used b s) = ucs_config_file_vars s"
  by (simp_all add: ucs_config_parser_mark_env_var_used_def)

lemma apply_config_var_frame:
  "a \<noteq> var \<Longrightarrow> snd (apply_config_var p d v var ign m) a = m a"
  by (simp add: apply_config_var_def Let_def ucs_config_parser_parse_field_def
      ucs_config_parser_release_field_def split: prod.splits option.splits)

lemma apply_config_vars_preserves:
  "ucs_config_file_vars (snd (ucs_config_apply_config_vars env opts fs prefix tp rec ign s))
     = ucs_config_file_vars s
   \<and> (\<forall>a. a \<notin> field_addrs opts fs \<longrightarrow>
         slots (snd (ucs_config_apply_config_vars env opts fs prefix tp rec ign s)) a
         = slots s a)"
proof (induction env opts fs prefix tp rec ign s rule: ucs_config_apply_config_vars.induct)
  case (1 env opts prefix table_prefix recurse ignore_errors s)
  then show ?case by simp
next
  case (2 env opts n d off sub fs prefix table_prefix recurse ignore_errors s)
  let ?Q = "\<lambda>A s s'. ucs_config_file_vars s' = ucs_config_file_vars s
                \<and> (\<forall>a. a \<notin> A \<longrightarrow> slots s' a = slots s a)"
  let ?A = "field_addrs opts (TableField n d off sub # fs)"
  obtain st1 s1 where
    r1: "(if recurse
          then ucs_config_apply_config_vars env (opts + off) sub prefix (Some n) True ignore_errors s
          else (UCS_OK, s)) = (st1, s1)"
    by (cases "if recurse
          then ucs_config_apply_config_vars env (opts + off) sub prefix (Some n) True ignore_errors s
          else (UCS_OK, s)")
  obtain st2 s2 where
    r2: "(if table_prefix \<noteq> None
          then ucs_config_apply_config_vars env (opts + off) sub prefix table_prefix False
                 ignore_errors s1
          else (UCS_OK, s1)) = (st2, s2)"
    by (cases "if table_prefix \<noteq> None
          then ucs_config_apply_config_vars env (opts + off) sub prefix table_prefix False
                 ignore_errors s1
          else (UCS_OK, s1)")
  obtain st3 s3 where
    r3: "ucs_config_apply_config_vars env opts fs prefix table_prefix recurse ignore_errors s2
         = (st3, s3)"
    by (cases "ucs_config_apply_config_vars env opts fs prefix table_prefix recurse ignore_errors s2")
  have res: "ucs_config_apply_config_vars env opts (TableField n d off sub # fs) prefix
               table_prefix recurse ignore_errors s =
          (if st1 \<noteq> UCS_OK then (st1, s1)
           else if st2 \<noteq> UCS_OK then (st2, s2) else (st3, s3))"
    by (simp only: ucs_config_apply_config_vars.simps r1 r2 r3 prod.case)
  have q1: "?Q ?A s s1"
  proof (cases recurse)
    case True
    with r1 "2.IH"(1) show ?thesis by simp
  next
    case False
    with r1 show ?thesis by simp
  qed
  have q2: "?Q ?A s1 s2" if "st1 = UCS_OK"
  proof (cases "table_prefix \<noteq> None")
    case True
    with r1 r2 that "2.IH"(2) [of st1 s1] show ?thesis by simp
  next
    case False
    with r2 show ?thesis by simp
  qed
  have q3: "?Q ?A s2 s3" if "st1 = UCS_OK" "st2 = UCS_OK"
    using r1 r2 r3 that "2.IH"(3) [of st1 s1 st2 s2] by simp
  show ?case
    unfolding res using q1 q2 q3 by (cases "st1 = UCS_OK"; cases "st2 = UCS_OK") simp_all
next
  case (3 env opts n d off p fs prefix table_prefix recurse ignore_errors s)
  let ?buf = "config_var_name prefix table_prefix n"
  show ?case
  proof (cases "config_var_lookup env s ?buf")
    case None
    with "3.IH"(1) show ?thesis by (simp split: if_splits)
  next
    case (Some v)
    let ?s1 = "ucs_config_parser_mark_env_var_used ?buf s"
    show ?thesis
    proof (cases "off = UCS_CONFIG_DEPRECATED_FIELD_OFFSET")
      case True
      with Some "3.IH"(2) [OF refl Some refl] show ?thesis
        by (simp add: mark_used_simps)
    next
      case False
      obtain st m' where
        ap: "apply_config_var p d v (opts + off) ignore_errors (slots ?s1) = (st, m')"
        by (cases "apply_config_var p d v (opts + off) ignore_errors (slots ?s1)")
      have fr: "m' a = slots s a" if "a \<noteq> opts + off" for a
        using apply_config_var_frame [OF that, of p d v ignore_errors "slots ?s1"] ap
        by (simp add: mark_used_simps)
      show ?thesis
      proof (cases "st = UCS_OK")
        case True
        with Some False ap "3.IH"(3) [OF refl Some refl False ap [symmetric]] fr
        show ?thesis by (simp add: mark_used_simps)
      next
        case st: False
        with Some False ap fr show ?thesis by (simp add: mark_used_simps)
      qed
    qed
  qed
qed


section \<open>Properties of the apply pipeline\<close>

lemma config_var_lookup_cong:
  "ucs_config_file_vars s = ucs_config_file_vars s' \<Longrightarrow>
   config_var_lookup env s buf = config_var_lookup env s' buf"
  by (cases "env buf") (simp_all add: config_var_lookup_def)

lemma get_sub_prefix_error:
  "ucs_config_parser_get_sub_prefix env_prefix = Inl st \<Longrightarrow> st = UCS_ERR_INVALID_PARAM"
  by (simp add: ucs_config_parser_get_sub_prefix_def Let_def split: if_splits)

lemma config_var_name_short:
  "length (prefix @ tp @ name) \<le> 254 \<Longrightarrow>
   config_var_name prefix (Some tp) name = prefix @ tp @ name"
  by (simp add: config_var_name_def snprintf_buf_def strncpy_buf_def Let_def)

lemma fill_opts_ok:
  assumes "ucs_config_parser_fill_opts fnm env parse_files opts entry env_prefix ign s
           = (UCS_OK, s', entry')"
  shows "\<exists>m0 sp s1.
           ucs_config_parser_set_default_values fnm opts (entry_table entry) (slots s) = (UCS_OK, m0)
           \<and> ucs_config_parser_get_sub_prefix env_prefix = Inr sp
           \<and> (case sp of
                 None \<Rightarrow> (UCS_OK, config_file_parse_once parse_files (s\<lparr>slots := m0\<rparr>))
               | Some sub \<Rightarrow>
                   ucs_config_apply_config_vars env opts (entry_table entry) sub
                     (entry_prefix entry) True ign
                     (config_file_parse_once parse_files (s\<lparr>slots := m0\<rparr>))) = (UCS_OK, s1)
           \<and> ucs_config_apply_config_vars env opts (entry_table entry) env_prefix
                (entry_prefix entry) True ign s1 = (UCS_OK, s')"
proof -
  obtain st0 m0 where d: "ucs_config_parser_set_default_values fnm opts (entry_table entry) (slots s)
                          = (st0, m0)"
    by (cases "ucs_config_parser_set_default_values fnm opts (entry_table entry) (slots s)")
  from assms d have st0: "st0 = UCS_OK"
    by (simp add: ucs_config_parser_fill_opts_def split: if_splits)
  obtain sp where sp: "ucs_config_parser_get_sub_prefix env_prefix = Inr sp"
  proof (cases "ucs_config_parser_get_sub_prefix env_prefix")
    case (Inl st)
    with get_sub_prefix_error [OF Inl] assms d st0 have False
      by (simp add: ucs_config_parser_fill_opts_def)
    then show ?thesis ..
  next
    case (Inr sp)
    then show ?thesis by (rule that)
  qed
  let ?s0 = "config_file_parse_once parse_files (s\<lparr>slots := m0\<rparr>)"
  obtain st1 s1 where p1: "(case sp of
                 None \<Rightarrow> (UCS_OK, ?s0)
               | Some sub \<Rightarrow>
                   ucs_config_apply_config_vars env opts (entry_table entry) sub
                     (entry_prefix entry) True ign ?s0) = (st1, s1)"
    by (cases "case sp of
                 None \<Rightarrow> (UCS_OK, ?s0)
               | Some sub \<Rightarrow>
                   ucs_config_apply_config_vars env opts (entry_table entry) sub
                     (entry_prefix entry) True ign ?s0")
  from assms d st0 sp p1 have st1: "st1 = UCS_OK"
    by (simp add: ucs_config_parser_fill_opts_def Let_def split: if_splits)
  obtain st2 s2 where p2: "ucs_config_apply_config_vars env opts (entry_table entry) env_prefix
                (entry_prefix entry) True ign s1 = (st2, s2)"
    by (cases "ucs_config_apply_config_vars env opts (entry_table entry) env_prefix
                (entry_prefix entry) True ign s1")
  from assms d st0 sp p1 st1 p2 have "st2 = UCS_OK \<and> s2 = s'"
    by (simp add: ucs_config_parser_fill_opts_def Let_def split: if_splits)
  with d st0 sp p1 st1 p2 show ?thesis by blast
qed


lemma uint_reads_more:
  "parser_read (config_type_uint h) ''1'' slot = (1, VUint 1)"
  "parser_read (config_type_uint h) ''8'' slot = (1, VUint 8)"
  by (simp_all add: config_type_uint_def ucs_config_sscanf_uint_def strcasecmp_eq_def
      UCS_NUMERIC_INF_STR_def sscanf_u_def isspace_def digit_val_def digits_value_def)

lemma string_parser_simps:
  "parser_read (config_type_string h) buf slot = (1, VString (Some buf))"
  "parser_release (config_type_string h) slot = VString None"
  by (simp_all add: config_type_string_def ucs_config_sscanf_string_def
      ucs_config_release_string_def)

lemma sub_prefix_values:
  "ucs_config_parser_get_sub_prefix ''UCX_FOO_'' = Inr (Some ''FOO_'')"
  "ucs_config_parser_get_sub_prefix ''UCX_'' = Inr None"
  "ucs_config_parser_get_sub_prefix ''X'' = Inl UCS_ERR_INVALID_PARAM"
proof -
  show "ucs_config_parser_get_sub_prefix ''UCX_FOO_'' = Inr (Some ''FOO_'')"
    using sub_prefix_two_segments [of "''FOO''" "''UCX''"] by simp
  show "ucs_config_parser_get_sub_prefix ''UCX_'' = Inr None"
    by (simp add: ucs_config_parser_get_sub_prefix_def eval_nat_numeral)
  show "ucs_config_parser_get_sub_prefix ''X'' = Inl UCS_ERR_INVALID_PARAM"
    by (rule sub_prefix_too_short) simp
qed

lemmas fill_eval =
  ucs_config_parser_fill_opts_def config_file_parse_once_def
  ucs_config_parser_parse_field_def ucs_config_parser_release_field_def
  UCS_CONFIG_DEPRECATED_FIELD_OFFSET_def apply_config_var_def
  config_var_name_def snprintf_buf_def strncpy_buf_def config_var_lookup_def
  ucs_config_parser_mark_env_var_used_def sub_prefix_values uint_reads_more uint_reads string_parser_simps
  uint_parser_simps Let_def

text \<open>
  Claim C1, as stated: the final value is read from the variable named by the prefix, the
  table prefix and the field name, else from the file entry of that name, else from the
  default text. With the two-segment prefix \<^verbatim>\<open>UCX_FOO_\<close> the variable \<^verbatim>\<open>FOO_NUM\<close>,
  named with the sub-prefix, is applied as well: with neither \<^verbatim>\<open>UCX_FOO_NUM\<close> nor a
  file entry present, the field ends as 5, not as its default 1.
\<close>

theorem C1_sub_prefix_variable_counterexample:
  "[''FOO_NUM'' \<mapsto> ''5''] (config_var_name ''UCX_FOO_'' (Some []) ''NUM'') = None
   \<and> ucs_config_parser_fill_opts fnmatch0 [''FOO_NUM'' \<mapsto> ''5''] (\<lambda>m. m) 0
       \<lparr>entry_table = [Field ''NUM'' (Some ''1'') 0 (config_type_uint [])],
        entry_prefix = Some [], entry_loaded = False\<rparr>
       ''UCX_FOO_'' False
       \<lparr>slots = (\<lambda>a. VUint 0), ucs_config_parser_env_vars = {},
        ucs_config_file_vars = Map.empty, config_file_parse = False\<rparr>
     = (UCS_OK,
        \<lparr>slots = (\<lambda>a. VUint 0)(0 := VUint 5), ucs_config_parser_env_vars = {''FOO_NUM''},
         ucs_config_file_vars = Map.empty, config_file_parse = True\<rparr>,
        \<lparr>entry_table = [Field ''NUM'' (Some ''1'') 0 (config_type_uint [])],
         entry_prefix = Some [], entry_loaded = True\<rparr>)
   \<and> parser_read (config_type_uint []) ''1'' (VUint 0) = (1, VUint 1)"
  by (simp add: fill_eval)

lemma apply_config_var_slot:
  "apply_config_var p d v var ign m
   = (applied_status p d ign v (m var), m(var := applied_value p d ign v (m var)))"
  by (simp add: apply_config_var_def applied_status_def applied_value_def Let_def
      ucs_config_parser_parse_field_def ucs_config_parser_release_field_def
      split: prod.splits option.splits)

lemma pass_value_cong:
  "ucs_config_file_vars s = ucs_config_file_vars s' \<Longrightarrow>
   pass_value env s p d ign names x = pass_value env s' p d ign names x"
  unfolding pass_value_def
  by (simp add: config_var_lookup_cong [of s s'])

lemma pass_value_append:
  "pass_value env s p d ign (ns1 @ ns2) x
   = pass_value env s p d ign ns2 (pass_value env s p d ign ns1 x)"
  by (simp add: pass_value_def)

lemma pass_effect_nil:
  "(al \<longrightarrow> slots s' a = slots s a) \<Longrightarrow> ucs_config_file_vars s' = ucs_config_file_vars s \<Longrightarrow>
   pass_effect env p d ign a al [] s s'"
  by (simp add: pass_effect_def pass_value_def)

lemma pass_effect_trans:
  assumes "pass_effect env p d ign a al ns1 s s1" and "pass_effect env p d ign a al ns2 s1 s2"
  shows "pass_effect env p d ign a al (ns1 @ ns2) s s2"
proof -
  from assms(1) have f: "ucs_config_file_vars s1 = ucs_config_file_vars s"
    by (simp add: pass_effect_def)
  have lk: "config_var_lookup env s1 name = config_var_lookup env s name" for name
    by (rule config_var_lookup_cong [OF f])
  from assms f show ?thesis
    unfolding pass_effect_def
    by (auto simp: pass_value_append pass_value_cong [OF f] lk)
qed

lemma apply_pass_leaf:
  assumes "ucs_config_apply_config_vars env opts (pre @ Field n d off p # post) prefix tp rec ign s
           = (UCS_OK, s')"
    and "off \<noteq> UCS_CONFIG_DEPRECATED_FIELD_OFFSET"
    and "al \<longrightarrow> opts + off \<notin> field_addrs opts pre \<and> opts + off \<notin> field_addrs opts post"
  shows "pass_effect env p d ign (opts + off) al [config_var_name prefix tp n] s s'"
proof -
  let ?a = "opts + off"
  let ?buf = "config_var_name prefix tp n"
  obtain st1 s1 where pre: "ucs_config_apply_config_vars env opts pre prefix tp rec ign s = (st1, s1)"
    by (cases "ucs_config_apply_config_vars env opts pre prefix tp rec ign s")
  from assms(1) pre have st1: "st1 = UCS_OK"
    by (simp add: apply_config_vars_append split: if_splits)
  with assms(1) pre have rest:
    "ucs_config_apply_config_vars env opts (Field n d off p # post) prefix tp rec ign s1
     = (UCS_OK, s')"
    by (simp add: apply_config_vars_append)
  from apply_config_vars_preserves [of env opts pre prefix tp rec ign s] pre assms(3)
  have f1: "ucs_config_file_vars s1 = ucs_config_file_vars s"
    and a1: "al \<longrightarrow> slots s1 ?a = slots s ?a"
    by simp_all
  have lk: "config_var_lookup env s1 ?buf = config_var_lookup env s ?buf"
    by (rule config_var_lookup_cong [OF f1])
  show ?thesis
  proof (cases "config_var_lookup env s ?buf")
    case None
    with rest lk have "ucs_config_apply_config_vars env opts post prefix tp rec ign s1 = (UCS_OK, s')"
      by simp
    with apply_config_vars_preserves [of env opts post prefix tp rec ign s1] assms(3)
    have "al \<longrightarrow> slots s' ?a = slots s1 ?a" "ucs_config_file_vars s' = ucs_config_file_vars s1"
      by simp_all
    with a1 f1 None show ?thesis by (simp add: pass_effect_def pass_value_def)
  next
    case (Some v)
    let ?s2 = "ucs_config_parser_mark_env_var_used ?buf s1"
    let ?x = "slots s1 ?a"
    let ?s3 = "?s2\<lparr>slots := (slots ?s2)(?a := applied_value p d ign v ?x)\<rparr>"
    have ap: "apply_config_var p d v ?a ign (slots ?s2)
              = (applied_status p d ign v ?x, (slots ?s2)(?a := applied_value p d ign v ?x))"
      by (simp add: apply_config_var_slot mark_used_simps)
    from rest lk Some assms(2) ap
    have ok: "applied_status p d ign v ?x = UCS_OK"
      by (simp add: Let_def split: if_splits)
    with rest lk Some assms(2) ap
    have post: "ucs_config_apply_config_vars env opts post prefix tp rec ign ?s3 = (UCS_OK, s')"
      by (simp add: Let_def)
    with apply_config_vars_preserves [of env opts post prefix tp rec ign ?s3] assms(3)
    have "al \<longrightarrow> slots s' ?a = applied_value p d ign v ?x"
      and "ucs_config_file_vars s' = ucs_config_file_vars ?s3" by simp_all
    with a1 f1 Some ok show ?thesis
      by (auto simp: pass_effect_def pass_value_def mark_used_simps)
  qed
qed

lemma apply_pass_frame:
  assumes "ucs_config_apply_config_vars env opts fs prefix tp rec ign s = (st, s')"
    and "al \<longrightarrow> a \<notin> field_addrs opts fs"
  shows "pass_effect env p d ign a al [] s s'"
  using apply_config_vars_preserves [of env opts fs prefix tp rec ign s] assms
  by (simp add: pass_effect_nil)

lemma apply_table_step:
  assumes "ucs_config_apply_config_vars env opts (pre0 @ TableField tn td toff inner # post0)
             prefix tp rec ign s = (UCS_OK, s')"
  obtains s1 s2 s3 where
    "ucs_config_apply_config_vars env opts pre0 prefix tp rec ign s = (UCS_OK, s1)"
    "(if rec then ucs_config_apply_config_vars env (opts + toff) inner prefix (Some tn) True ign s1
      else (UCS_OK, s1)) = (UCS_OK, s2)"
    "(if tp \<noteq> None
      then ucs_config_apply_config_vars env (opts + toff) inner prefix tp False ign s2
      else (UCS_OK, s2)) = (UCS_OK, s3)"
    "ucs_config_apply_config_vars env opts post0 prefix tp rec ign s3 = (UCS_OK, s')"
proof -
  obtain st1 s1 where pre: "ucs_config_apply_config_vars env opts pre0 prefix tp rec ign s = (st1, s1)"
    by (cases "ucs_config_apply_config_vars env opts pre0 prefix tp rec ign s")
  from assms pre have st1: "st1 = UCS_OK"
    by (simp add: apply_config_vars_append split: if_splits)
  with assms pre have rest:
    "ucs_config_apply_config_vars env opts (TableField tn td toff inner # post0) prefix tp rec ign s1
     = (UCS_OK, s')"
    by (simp add: apply_config_vars_append)
  obtain st2 s2 where
    r1: "(if rec
          then ucs_config_apply_config_vars env (opts + toff) inner prefix (Some tn) True ign s1
          else (UCS_OK, s1)) = (st2, s2)"
    by (cases "if rec
          then ucs_config_apply_config_vars env (opts + toff) inner prefix (Some tn) True ign s1
          else (UCS_OK, s1)")
  obtain st3 s3 where
    r2: "(if tp \<noteq> None
          then ucs_config_apply_config_vars env (opts + toff) inner prefix tp False ign s2
          else (UCS_OK, s2)) = (st3, s3)"
    by (cases "if tp \<noteq> None
          then ucs_config_apply_config_vars env (opts + toff) inner prefix tp False ign s2
          else (UCS_OK, s2)")
  have res: "ucs_config_apply_config_vars env opts (TableField tn td toff inner # post0) prefix tp
               rec ign s1 =
          (if st2 \<noteq> UCS_OK then (st2, s2)
           else if st3 \<noteq> UCS_OK then (st3, s3)
           else ucs_config_apply_config_vars env opts post0 prefix tp rec ign s3)"
    by (simp only: ucs_config_apply_config_vars.simps r1 r2 prod.case)
  from rest res have st2: "st2 = UCS_OK" by (simp split: if_splits)
  with rest res have st3: "st3 = UCS_OK" by (simp split: if_splits)
  with rest res st2 have
    post: "ucs_config_apply_config_vars env opts post0 prefix tp rec ign s3 = (UCS_OK, s')"
    by simp
  show ?thesis
    by (rule that [OF pre [unfolded st1] r1 [unfolded st2] r2 [unfolded st3] post])
qed

lemma pass_norec:
  assumes "ucs_config_apply_config_vars env opts (nest steps (pre @ Field n d off p # post))
             prefix (Some t) False ign s = (UCS_OK, s')"
    and "off \<noteq> UCS_CONFIG_DEPRECATED_FIELD_OFFSET"
    and "al \<longrightarrow> field_alone opts steps pre off post"
  shows "pass_effect env p d ign (nest_opts opts steps + off) al
           [config_var_name prefix (Some t) n] s s'"
  using assms
proof (induction steps arbitrary: opts s s')
  case Nil
  then show ?case
    using apply_pass_leaf [of env opts pre n d off p post prefix "Some t" False ign s s' al]
    by simp
next
  case (Cons step steps)
  obtain pre0 tn td toff post0 where step: "step = (pre0, tn, td, toff, post0)"
    by (cases step)
  let ?a = "nest_opts (opts + toff) steps + off"
  let ?inner = "nest steps (pre @ Field n d off p # post)"
  from Cons.prems(3) step have a1: "al \<longrightarrow> ?a \<notin> field_addrs opts pre0"
    and a2: "al \<longrightarrow> ?a \<notin> field_addrs opts post0"
    and al: "al \<longrightarrow> field_alone (opts + toff) steps pre off post"
    by simp_all
  from Cons.prems(1) step have run:
    "ucs_config_apply_config_vars env opts (pre0 @ TableField tn td toff ?inner # post0)
       prefix (Some t) False ign s = (UCS_OK, s')"
    by simp
  from run obtain s1 s2 s3 where
    p1: "ucs_config_apply_config_vars env opts pre0 prefix (Some t) False ign s = (UCS_OK, s1)"
    and p2: "(if False
              then ucs_config_apply_config_vars env (opts + toff) ?inner prefix (Some tn) True ign s1
              else (UCS_OK, s1)) = (UCS_OK, s2)"
    and p3: "(if Some t \<noteq> None
              then ucs_config_apply_config_vars env (opts + toff) ?inner prefix (Some t) False ign s2
              else (UCS_OK, s2)) = (UCS_OK, s3)"
    and p4: "ucs_config_apply_config_vars env opts post0 prefix (Some t) False ign s3 = (UCS_OK, s')"
    by (rule apply_table_step)
  from p2 have s2: "s2 = s1" by simp
  from p3 s2 have inner:
    "ucs_config_apply_config_vars env (opts + toff) ?inner prefix (Some t) False ign s1
     = (UCS_OK, s3)"
    by simp
  have e1: "pass_effect env p d ign ?a al [] s s1" by (rule apply_pass_frame [OF p1 a1])
  have e2: "pass_effect env p d ign ?a al [config_var_name prefix (Some t) n] s1 s3"
    by (rule Cons.IH [OF inner Cons.prems(2) al])
  have e3: "pass_effect env p d ign ?a al [] s3 s'" by (rule apply_pass_frame [OF p4 a2])
  from pass_effect_trans [OF pass_effect_trans [OF e1 e2] e3] step show ?case by simp
qed

lemma pass_rec:
  assumes "ucs_config_apply_config_vars env opts (nest steps (pre @ Field n d off p # post))
             prefix tp True ign s = (UCS_OK, s')"
    and "off \<noteq> UCS_CONFIG_DEPRECATED_FIELD_OFFSET"
    and "al \<longrightarrow> field_alone opts steps pre off post"
  shows "pass_effect env p d ign (nest_opts opts steps + off) al
           (var_names prefix (step_names steps) tp n) s s'"
  using assms
proof (induction steps arbitrary: opts tp s s')
  case Nil
  have "var_names prefix [] tp n = [config_var_name prefix tp n]"
    by (cases tp) (simp_all add: var_names_def table_prefixes_def config_var_name_def)
  with Nil show ?case
    using apply_pass_leaf [of env opts pre n d off p post prefix tp True ign s s' al] by simp
next
  case (Cons step steps)
  obtain pre0 tn td toff post0 where step: "step = (pre0, tn, td, toff, post0)"
    by (cases step)
  let ?a = "nest_opts (opts + toff) steps + off"
  let ?inner = "nest steps (pre @ Field n d off p # post)"
  from Cons.prems(3) step have a1: "al \<longrightarrow> ?a \<notin> field_addrs opts pre0"
    and a2: "al \<longrightarrow> ?a \<notin> field_addrs opts post0"
    and al: "al \<longrightarrow> field_alone (opts + toff) steps pre off post"
    by simp_all
  from Cons.prems(1) step have run:
    "ucs_config_apply_config_vars env opts (pre0 @ TableField tn td toff ?inner # post0)
       prefix tp True ign s = (UCS_OK, s')"
    by simp
  from run obtain s1 s2 s3 where
    p1: "ucs_config_apply_config_vars env opts pre0 prefix tp True ign s = (UCS_OK, s1)"
    and p2: "(if True
              then ucs_config_apply_config_vars env (opts + toff) ?inner prefix (Some tn) True ign s1
              else (UCS_OK, s1)) = (UCS_OK, s2)"
    and p3: "(if tp \<noteq> None
              then ucs_config_apply_config_vars env (opts + toff) ?inner prefix tp False ign s2
              else (UCS_OK, s2)) = (UCS_OK, s3)"
    and p4: "ucs_config_apply_config_vars env opts post0 prefix tp True ign s3 = (UCS_OK, s')"
    by (rule apply_table_step)
  from p2 have inner:
    "ucs_config_apply_config_vars env (opts + toff) ?inner prefix (Some tn) True ign s1
     = (UCS_OK, s2)"
    by simp
  have e1: "pass_effect env p d ign ?a al [] s s1" by (rule apply_pass_frame [OF p1 a1])
  have e2: "pass_effect env p d ign ?a al (var_names prefix (step_names steps) (Some tn) n) s1 s2"
    by (rule Cons.IH [OF inner Cons.prems(2) al])
  have e3: "pass_effect env p d ign ?a al
              (case tp of None \<Rightarrow> [] | Some t \<Rightarrow> [config_var_name prefix (Some t) n]) s2 s3"
  proof (cases tp)
    case None
    with p3 have "s3 = s2" by simp
    with None show ?thesis by (simp add: pass_effect_nil)
  next
    case (Some t)
    with p3 have "ucs_config_apply_config_vars env (opts + toff) ?inner prefix (Some t) False ign s2
                  = (UCS_OK, s3)"
      by simp
    from pass_norec [OF this Cons.prems(2) al] Some show ?thesis by simp
  qed
  have e4: "pass_effect env p d ign ?a al [] s3 s'" by (rule apply_pass_frame [OF p4 a2])
  have names: "var_names prefix (step_names (step # steps)) tp n
               = [] @ var_names prefix (step_names steps) (Some tn) n
                 @ (case tp of None \<Rightarrow> [] | Some t \<Rightarrow> [config_var_name prefix (Some t) n]) @ []"
    by (cases tp) (simp_all add: step var_names_def table_prefixes_def)
  from pass_effect_trans [OF e1 pass_effect_trans [OF e2 pass_effect_trans [OF e3 e4]]]
  show ?case unfolding names using step by simp
qed

lemma apply_status_induct:
  assumes "\<forall>n d off p v x. Field n d off p \<in> set (leaf_fields fs) \<longrightarrow>
             Q (applied_status p d ign v x)"
    and "Q UCS_OK"
  shows "Q (fst (ucs_config_apply_config_vars env opts fs prefix tp rec ign s))"
  using assms(1)
proof (induction env opts fs prefix tp rec ign s rule: ucs_config_apply_config_vars.induct)
  case (1 env opts prefix table_prefix recurse ignore_errors s)
  show ?case using assms(2) by simp
next
  case (2 env opts n d off sub fs prefix table_prefix recurse ignore_errors s)
  have lsub: "\<forall>n d off p v x. Field n d off p \<in> set (leaf_fields sub) \<longrightarrow>
                Q (applied_status p d ignore_errors v x)"
    and lfs: "\<forall>n d off p v x. Field n d off p \<in> set (leaf_fields fs) \<longrightarrow>
                Q (applied_status p d ignore_errors v x)"
    using "2.prems" by auto
  obtain st1 s1 where
    r1: "(if recurse
          then ucs_config_apply_config_vars env (opts + off) sub prefix (Some n) True ignore_errors s
          else (UCS_OK, s)) = (st1, s1)"
    by (cases "if recurse
          then ucs_config_apply_config_vars env (opts + off) sub prefix (Some n) True ignore_errors s
          else (UCS_OK, s)")
  obtain st2 s2 where
    r2: "(if table_prefix \<noteq> None
          then ucs_config_apply_config_vars env (opts + off) sub prefix table_prefix False
                 ignore_errors s1
          else (UCS_OK, s1)) = (st2, s2)"
    by (cases "if table_prefix \<noteq> None
          then ucs_config_apply_config_vars env (opts + off) sub prefix table_prefix False
                 ignore_errors s1
          else (UCS_OK, s1)")
  obtain st3 s3 where
    r3: "ucs_config_apply_config_vars env opts fs prefix table_prefix recurse ignore_errors s2
         = (st3, s3)"
    by (cases "ucs_config_apply_config_vars env opts fs prefix table_prefix recurse ignore_errors s2")
  have res: "ucs_config_apply_config_vars env opts (TableField n d off sub # fs) prefix
               table_prefix recurse ignore_errors s =
          (if st1 \<noteq> UCS_OK then (st1, s1)
           else if st2 \<noteq> UCS_OK then (st2, s2) else (st3, s3))"
    by (simp only: ucs_config_apply_config_vars.simps r1 r2 r3 prod.case)
  have q1: "Q st1"
  proof (cases recurse)
    case True
    with r1 "2.IH"(1) lsub show ?thesis by simp
  next
    case False
    with r1 assms(2) show ?thesis by simp
  qed
  have q2: "Q st2" if "st1 = UCS_OK"
  proof (cases "table_prefix \<noteq> None")
    case True
    with r1 r2 that "2.IH"(2) [of st1 s1] lsub show ?thesis by simp
  next
    case False
    with r2 assms(2) show ?thesis by simp
  qed
  have q3: "Q st3" if "st1 = UCS_OK" "st2 = UCS_OK"
    using r1 r2 r3 that "2.IH"(3) [of st1 s1 st2 s2] lfs by simp
  show ?case
    unfolding res using q1 q2 q3 by (cases "st1 = UCS_OK"; cases "st2 = UCS_OK") simp_all
next
  case (3 env opts n d off p fs prefix table_prefix recurse ignore_errors s)
  let ?buf = "config_var_name prefix table_prefix n"
  have lfs: "\<forall>n d off p v x. Field n d off p \<in> set (leaf_fields fs) \<longrightarrow>
                Q (applied_status p d ignore_errors v x)"
    using "3.prems" by (auto split: if_splits)
  show ?case
  proof (cases "config_var_lookup env s ?buf")
    case None
    with "3.IH"(1) lfs show ?thesis by simp
  next
    case (Some v)
    let ?s1 = "ucs_config_parser_mark_env_var_used ?buf s"
    show ?thesis
    proof (cases "off = UCS_CONFIG_DEPRECATED_FIELD_OFFSET")
      case True
      with Some "3.IH"(2) [OF refl Some refl] lfs show ?thesis by simp
    next
      case False
      let ?st = "applied_status p d ignore_errors v (slots ?s1 (opts + off))"
      let ?m' = "(slots ?s1)(opts + off := applied_value p d ignore_errors v (slots ?s1 (opts + off)))"
      have ap: "apply_config_var p d v (opts + off) ignore_errors (slots ?s1) = (?st, ?m')"
        by (rule apply_config_var_slot)
      have qst: "Q ?st" using "3.prems" False by simp
      show ?thesis
      proof (cases "?st = UCS_OK")
        case True
        with Some False ap "3.IH"(3) [OF refl Some refl False ap [symmetric]] lfs
        show ?thesis by (simp add: Let_def)
      next
        case st: False
        with Some False ap qst show ?thesis by (simp add: Let_def)
      qed
    qed
  qed
qed


lemma applied_value_accepted:
  "\<forall>x. parser_read p E x = (1, vE) \<Longrightarrow> applied_value p d ign E x = vE"
  by (simp add: applied_value_def apply_config_var_def Let_def
      ucs_config_parser_parse_field_def ucs_config_parser_release_field_def)

lemma applied_value_rejected:
  assumes "\<forall>x. fst (parser_read p v x) \<noteq> 1" and "\<forall>x. parser_read p dfl x = (1, vD)"
  shows "applied_value p (Some dfl) ign v x = vD"
proof -
  obtain ret y where rd: "parser_read p v (parser_release p x) = (ret, y)"
    by (cases "parser_read p v (parser_release p x)")
  from assms(1) [rule_format, of "parser_release p x"] rd have "ret \<noteq> 1" by simp
  with rd assms(2) show ?thesis
    by (simp add: applied_value_def apply_config_var_def Let_def
        ucs_config_parser_parse_field_def ucs_config_parser_release_field_def)
qed

lemma applied_status_rejected:
  assumes "\<forall>x. fst (parser_read p v x) \<noteq> 1"
  shows "applied_status p d False v x \<noteq> UCS_OK"
proof -
  obtain ret y where rd: "parser_read p v (parser_release p x) = (ret, y)"
    by (cases "parser_read p v (parser_release p x)")
  from assms [rule_format, of "parser_release p x"] rd have "ret \<noteq> 1" by simp
  with rd show ?thesis
    by (simp add: applied_status_def apply_config_var_def Let_def
        ucs_config_parser_parse_field_def ucs_config_parser_release_field_def
        split: prod.splits option.splits)
qed

lemma applied_status_cases:
  "applied_status p (Some dfl) ign v x = UCS_OK
   \<or> applied_status p (Some dfl) ign v x = UCS_ERR_INVALID_PARAM"
  by (simp add: applied_status_def apply_config_var_def Let_def
      ucs_config_parser_parse_field_def ucs_config_parser_release_field_def
      split: prod.splits)

lemma applied_status_ignore:
  assumes "\<forall>x. fst (parser_read p dfl x) = 1"
  shows "applied_status p (Some dfl) True v x = UCS_OK"
proof -
  obtain ret y where rd: "parser_read p v (parser_release p x) = (ret, y)"
    by (cases "parser_read p v (parser_release p x)")
  obtain ret2 y2 where rd2: "parser_read p dfl y = (ret2, y2)"
    by (cases "parser_read p dfl y")
  from assms [rule_format, of y] rd2 have "ret2 = 1" by simp
  with rd rd2 show ?thesis
    by (simp add: applied_status_def apply_config_var_def Let_def
        ucs_config_parser_parse_field_def ucs_config_parser_release_field_def)
qed

lemma apply_status_with_defaults:
  assumes "\<forall>f \<in> set (leaf_fields fs). dfl_value f \<noteq> None"
  shows "fst (ucs_config_apply_config_vars env opts fs prefix tp rec ign s) = UCS_OK
         \<or> fst (ucs_config_apply_config_vars env opts fs prefix tp rec ign s)
           = UCS_ERR_INVALID_PARAM"
proof (rule apply_status_induct [where Q = "\<lambda>st. st = UCS_OK \<or> st = UCS_ERR_INVALID_PARAM"])
  show "\<forall>n d off p v x. Field n d off p \<in> set (leaf_fields fs) \<longrightarrow>
          applied_status p d ign v x = UCS_OK
          \<or> applied_status p d ign v x = UCS_ERR_INVALID_PARAM"
  proof (intro allI impI)
    fix n d off p v x
    assume "Field n d off p \<in> set (leaf_fields fs)"
    with assms have "dfl_value (Field n d off p) \<noteq> None" by blast
    then obtain dfl where "d = Some dfl" by auto
    then show "applied_status p d ign v x = UCS_OK
               \<or> applied_status p d ign v x = UCS_ERR_INVALID_PARAM"
      using applied_status_cases [of p dfl ign v x] by simp
  qed
qed simp

lemma apply_status_ignore_errors:
  assumes "\<forall>f \<in> set (leaf_fields fs).
             \<exists>d. dfl_value f = Some d \<and> (\<forall>x. fst (parser_read (field_parser f) d x) = 1)"
  shows "fst (ucs_config_apply_config_vars env opts fs prefix tp rec True s) = UCS_OK"
proof (rule apply_status_induct [where Q = "\<lambda>st. st = UCS_OK"])
  show "\<forall>n d off p v x. Field n d off p \<in> set (leaf_fields fs) \<longrightarrow>
          applied_status p d True v x = UCS_OK"
  proof (intro allI impI)
    fix n d off p v x
    assume "Field n d off p \<in> set (leaf_fields fs)"
    with assms obtain dfl where "d = Some dfl" and "\<forall>x. fst (parser_read p dfl x) = 1"
      by fastforce
    then show "applied_status p d True v x = UCS_OK"
      by (simp add: applied_status_ignore)
  qed
qed simp

lemma sscanf_table_no_token:
  "strtok_r CHR '';'' t = None \<Longrightarrow> parse_table_field fnm sub t var m = (UCS_OK, m)"
  by (simp add: parse_table_field_def ucs_config_sscanf_table_def sscanf_table_loop.simps)

lemma set_default_values_leaf:
  assumes "ucs_config_parser_set_default_values fnm opts (pre @ Field n (Some dfl) off p # post) m
           = (UCS_OK, m0)"
    and "off \<noteq> UCS_CONFIG_DEPRECATED_FIELD_OFFSET"
    and "opts + off \<notin> field_addrs opts post"
  shows "\<exists>x. parser_read p dfl x = (1, m0 (opts + off))"
proof -
  obtain st1 m1 where pre: "ucs_config_parser_set_default_values fnm opts pre m = (st1, m1)"
    by (cases "ucs_config_parser_set_default_values fnm opts pre m")
  from assms(1) pre have st1: "st1 = UCS_OK"
    by (simp add: set_default_values_append split: if_splits)
  with assms(1) pre have rest:
    "ucs_config_parser_set_default_values fnm opts (Field n (Some dfl) off p # post) m1 = (UCS_OK, m0)"
    by (simp add: set_default_values_append)
  obtain ret y where rd: "parser_read p dfl (m1 (opts + off)) = (ret, y)"
    by (cases "parser_read p dfl (m1 (opts + off))")
  then have pf: "ucs_config_parser_parse_field p dfl (opts + off) m1
                 = (if ret \<noteq> 1 then UCS_ERR_INVALID_PARAM else UCS_OK, m1(opts + off := y))"
    by (simp add: ucs_config_parser_parse_field_def)
  from rest assms(2) pf have ret: "ret = 1" by (simp split: if_splits)
  with rest assms(2) pf have
    "ucs_config_parser_set_default_values fnm opts post (m1(opts + off := y)) = (UCS_OK, m0)"
    by simp
  with set_default_values_frame [OF assms(3), of fnm "m1(opts + off := y)"]
  have "m0 (opts + off) = y" by simp
  with rd ret show ?thesis by blast
qed

lemma set_default_values_nested:
  assumes "ucs_config_parser_set_default_values fnm opts
             (nest steps (pre @ Field n (Some dfl) off p # post)) m = (UCS_OK, m0)"
    and "off \<noteq> UCS_CONFIG_DEPRECATED_FIELD_OFFSET"
    and "plain_tables steps"
    and "field_alone opts steps pre off post"
  shows "\<exists>x. parser_read p dfl x = (1, m0 (nest_opts opts steps + off))"
  using assms
proof (induction steps arbitrary: opts m m0)
  case Nil
  then show ?case using set_default_values_leaf [of fnm opts pre n dfl off p post m m0] by simp
next
  case (Cons step steps)
  obtain pre0 tn td toff post0 where step: "step = (pre0, tn, td, toff, post0)"
    by (cases step)
  let ?a = "nest_opts (opts + toff) steps + off"
  let ?inner = "nest steps (pre @ Field n (Some dfl) off p # post)"
  from Cons.prems(4) step have a2: "?a \<notin> field_addrs opts post0"
    and al: "field_alone (opts + toff) steps pre off post"
    by simp_all
  from Cons.prems(3) step obtain t where td: "td = Some t" and tok: "strtok_r CHR '';'' t = None"
    and nd: "toff \<noteq> UCS_CONFIG_DEPRECATED_FIELD_OFFSET" and pl: "plain_tables steps"
    by (cases td) simp_all
  from Cons.prems(1) step td have run:
    "ucs_config_parser_set_default_values fnm opts
       (pre0 @ TableField tn (Some t) toff ?inner # post0) m = (UCS_OK, m0)"
    by simp
  obtain st1 m1 where pre: "ucs_config_parser_set_default_values fnm opts pre0 m = (st1, m1)"
    by (cases "ucs_config_parser_set_default_values fnm opts pre0 m")
  from run pre have st1: "st1 = UCS_OK"
    by (simp add: set_default_values_append split: if_splits)
  with run pre have rest:
    "ucs_config_parser_set_default_values fnm opts (TableField tn (Some t) toff ?inner # post0) m1
     = (UCS_OK, m0)"
    by (simp add: set_default_values_append)
  obtain st2 m2 where
    sub: "ucs_config_parser_set_default_values fnm (opts + toff) ?inner m1 = (st2, m2)"
    by (cases "ucs_config_parser_set_default_values fnm (opts + toff) ?inner m1")
  from rest nd sub have st2: "st2 = UCS_OK" by (simp split: if_splits)
  with rest nd sub tok have post:
    "ucs_config_parser_set_default_values fnm opts post0 m2 = (UCS_OK, m0)"
    by (simp add: sscanf_table_no_token)
  from Cons.IH [OF sub [unfolded st2] Cons.prems(2) pl al]
  obtain x where x: "parser_read p dfl x = (1, m2 ?a)" by blast
  from set_default_values_frame [OF a2, of fnm m2] post have "m0 ?a = m2 ?a" by simp
  with x step show ?case by auto
qed


lemma map_filter_first:
  "List.map_filter lk names = E # rest \<Longrightarrow>
   \<exists>hi nm lo. names = hi @ nm # lo \<and> (\<forall>h \<in> set hi. lk h = None) \<and> lk nm = Some E"
proof (induction names)
  case Nil
  then show ?case by (simp add: List.map_filter_simps)
next
  case (Cons x names)
  show ?case
  proof (cases "lk x")
    case None
    with Cons.prems have "List.map_filter lk names = E # rest"
      by (simp add: List.map_filter_simps)
    from Cons.IH [OF this] obtain hi nm lo where
      "names = hi @ nm # lo" "\<forall>h \<in> set hi. lk h = None" "lk nm = Some E" by blast
    with None have "x # names = (x # hi) @ nm # lo \<and> (\<forall>h \<in> set (x # hi). lk h = None)
                     \<and> lk nm = Some E"
      by simp
    then show ?thesis by blast
  next
    case (Some y)
    with Cons.prems have "y = E" by (simp add: List.map_filter_simps)
    with Some have "x # names = [] @ x # names \<and> (\<forall>h \<in> set []. lk h = None) \<and> lk x = Some E"
      by simp
    then show ?thesis by blast
  qed
qed

lemma map_filter_empty:
  "(List.map_filter lk names = []) = (\<forall>nm \<in> set names. lk nm = None)"
  by (induction names) (auto simp: List.map_filter_simps split: option.splits)

lemma env_over_file_first:
  assumes "env_over_file env fv names"
  shows "(case List.map_filter (\<lambda>nm. case env nm of Some v \<Rightarrow> Some v | None \<Rightarrow> fv nm) names of
            [] \<Rightarrow> None | E # rest \<Rightarrow> Some E)
         = (case List.map_filter env names @ List.map_filter fv names of
              [] \<Rightarrow> None | E # rest \<Rightarrow> Some E)"
  using assms
proof (induction names)
  case Nil
  then show ?case by (simp add: List.map_filter_simps)
next
  case (Cons x names)
  show ?case
  proof (cases "env x")
    case (Some v)
    then show ?thesis by (simp add: List.map_filter_simps)
  next
    case None
    show ?thesis
    proof (cases "fv x")
      case n: None
      with None Cons show ?thesis by (simp add: List.map_filter_simps)
    next
      case (Some v)
      with None Cons.prems have "\<forall>later \<in> set names. env later = None" by simp
      then have "List.map_filter env names = []" by (simp add: map_filter_empty)
      with None Some show ?thesis by (simp add: List.map_filter_simps)
    qed
  qed
qed

lemma pass_value_unset:
  "\<forall>nm \<in> set names. config_var_lookup env s nm = None \<Longrightarrow>
   pass_value env s p d ign names x = x"
  unfolding pass_value_def by (induction names arbitrary: x) simp_all

lemma pass_value_decided:
  assumes "\<forall>h \<in> set hi. config_var_lookup env s h = None"
    and "config_var_lookup env s nm = Some v"
  shows "pass_value env s p d ign (lo @ nm # hi) x
         = applied_value p d ign v (pass_value env s p d ign lo x)"
proof -
  have "pass_value env s p d ign (lo @ nm # hi) x
        = pass_value env s p d ign hi (pass_value env s p d ign [nm] (pass_value env s p d ign lo x))"
    by (simp add: pass_value_def)
  also have "\<dots> = pass_value env s p d ign [nm] (pass_value env s p d ign lo x)"
    by (rule pass_value_unset [OF assms(1)])
  also have "\<dots> = applied_value p d ign v (pass_value env s p d ign lo x)"
    using assms(2) by (simp add: pass_value_def)
  finally show ?thesis .
qed

lemma config_file_parse_once_simps:
  "slots (config_file_parse_once parse_files s) = slots s"
  "ucs_config_file_vars (config_file_parse_once parse_files (s\<lparr>slots := m\<rparr>))
   = ucs_config_file_vars (config_file_parse_once parse_files s)"
  by (simp_all add: config_file_parse_once_def)

lemma fill_opts_effect:
  assumes "ucs_config_parser_fill_opts fnm env parse_files opts entry env_prefix ign s
           = (UCS_OK, s', entry')"
    and "entry_table entry = nest steps (pre @ Field n d off p # post)"
    and "off \<noteq> UCS_CONFIG_DEPRECATED_FIELD_OFFSET"
    and "al \<longrightarrow> field_alone opts steps pre off post"
    and "ucs_config_parser_set_default_values fnm opts (entry_table entry) (slots s) = (UCS_OK, m0)"
    and "ucs_config_parser_get_sub_prefix env_prefix = Inr sp"
  shows "pass_effect env p d ign (nest_opts opts steps + off) al
           ((case sp of
               None \<Rightarrow> []
             | Some sub \<Rightarrow> var_names sub (step_names steps) (entry_prefix entry) n)
            @ var_names env_prefix (step_names steps) (entry_prefix entry) n)
           (config_file_parse_once parse_files (s\<lparr>slots := m0\<rparr>)) s'"
proof -
  let ?s0 = "config_file_parse_once parse_files (s\<lparr>slots := m0\<rparr>)"
  let ?tp = "entry_prefix entry"
  let ?a = "nest_opts opts steps + off"
  from fill_opts_ok [OF assms(1)] assms(5,6) obtain s1 where
    p1: "(case sp of
            None \<Rightarrow> (UCS_OK, ?s0)
          | Some sub \<Rightarrow>
              ucs_config_apply_config_vars env opts (entry_table entry) sub ?tp True ign ?s0)
         = (UCS_OK, s1)"
    and p2: "ucs_config_apply_config_vars env opts (entry_table entry) env_prefix ?tp True ign s1
             = (UCS_OK, s')"
    by auto
  have e1: "pass_effect env p d ign ?a al
              (case sp of None \<Rightarrow> [] | Some sub \<Rightarrow> var_names sub (step_names steps) ?tp n) ?s0 s1"
  proof (cases sp)
    case None
    with p1 show ?thesis by (simp add: pass_effect_nil)
  next
    case (Some sub)
    with p1 have "ucs_config_apply_config_vars env opts
                    (nest steps (pre @ Field n d off p # post)) sub ?tp True ign ?s0 = (UCS_OK, s1)"
      by (simp add: assms(2))
    from pass_rec [OF this assms(3,4)] Some show ?thesis by simp
  qed
  have e2: "pass_effect env p d ign ?a al (var_names env_prefix (step_names steps) ?tp n) s1 s'"
    by (rule pass_rec [OF p2 [unfolded assms(2)] assms(3,4)])
  show ?thesis by (rule pass_effect_trans [OF e1 e2])
qed


lemma config_var_lookup_split:
  "config_var_lookup env s nm
   = (case env nm of Some v \<Rightarrow> Some v | None \<Rightarrow> ucs_config_file_vars s nm)"
  by (simp add: config_var_lookup_def)

lemma uint_reads_digits:
  "parser_read (config_type_uint h) ''7'' slot = (1, VUint 7)"
  "parser_read (config_type_uint h) ''9'' slot = (1, VUint 9)"
  by (simp_all add: config_type_uint_def ucs_config_sscanf_uint_def strcasecmp_eq_def
      UCS_NUMERIC_INF_STR_def sscanf_u_def isspace_def digit_val_def digits_value_def)

lemma parse_table_field_empty: "parse_table_field fnm sub [] var m = (UCS_OK, m)"
  by (simp add: sscanf_table_no_token strtok_r_def)

lemmas path_eval =
  var_names_def table_prefixes_def List.map_filter_simps parse_table_field_empty
  uint_reads_digits

text \<open>
  Claim C1, amended: let a field that is neither a table, an alias nor deprecated lie in the
  entry's table or in a sub-table of it, at any depth, no other field writing its slot. The
  names of the field are a prefix followed by a table prefix and the name of the field, the
  table prefix being the prefix of the entry or the name of an enclosing table. They are
  taken in this order: the names built with \<^verbatim>\<open>env_prefix\<close>, the one with the entry's prefix
  first, then those with the names of the enclosing tables from the outermost to the
  innermost; then, when \<^verbatim>\<open>env_prefix\<close> has a sub-prefix, the same names built with the
  sub-prefix. When \<^verbatim>\<open>fill_opts\<close> returns \<^verbatim>\<open>UCS_OK\<close>, the final value is read from the first
  environment variable set under one of these names; when none is set, from the first file
  entry under one of these names; when there is neither, it is the value that
  \<^verbatim>\<open>ucs_config_parser_set_default_values\<close> left, which is read from the default text of
  the field unless the default text of an enclosing table assigns the field. The texts are
  those the parser accepts. This holds provided no file entry stands before an environment
  variable in the order of the names (\<open>env_over_file\<close>): a name is looked up in the
  environment and then in the file map, and the names are applied one after the other, so
  that such a file entry would be applied after the variable. \<open>config_var_name\<close> is the
  concatenation as long as it fits the 256-byte buffer (\<open>config_var_name_short\<close>).
\<close>

theorem C1_precedence:
  assumes "entry_table entry = nest steps (pre @ Field n (Some dfl) off p # post)"
    and "off \<noteq> UCS_CONFIG_DEPRECATED_FIELD_OFFSET"
    and "field_alone opts steps pre off post"
    and "ucs_config_parser_fill_opts fnm env parse_files opts entry env_prefix ign s
         = (UCS_OK, s', entry')"
    and "ucs_config_parser_set_default_values fnm opts (entry_table entry) (slots s) = (UCS_OK, m0)"
    and "ucs_config_parser_get_sub_prefix env_prefix = Inr sp"
    and "names = rev (var_names env_prefix (step_names steps) (entry_prefix entry) n)
                 @ (case sp of
                      None \<Rightarrow> []
                    | Some sub \<Rightarrow> rev (var_names sub (step_names steps) (entry_prefix entry) n))"
    and "file_vars = ucs_config_file_vars (config_file_parse_once parse_files s)"
    and "env_over_file env file_vars names"
  shows "(List.map_filter env names @ List.map_filter file_vars names = E # rest
          \<and> (\<forall>x. parser_read p E x = (1, vE)) \<longrightarrow>
          slots s' (nest_opts opts steps + off) = vE)
         \<and> (List.map_filter env names @ List.map_filter file_vars names = [] \<longrightarrow>
          slots s' (nest_opts opts steps + off) = m0 (nest_opts opts steps + off))
         \<and> (plain_tables steps \<and> (\<forall>x. parser_read p dfl x = (1, vD)) \<longrightarrow>
          m0 (nest_opts opts steps + off) = vD)"
proof -
  let ?a = "nest_opts opts steps + off"
  let ?s0 = "config_file_parse_once parse_files (s\<lparr>slots := m0\<rparr>)"
  let ?lk = "\<lambda>nm. case env nm of Some v \<Rightarrow> Some v | None \<Rightarrow> file_vars nm"
  let ?app = "(case sp of
                 None \<Rightarrow> []
               | Some sub \<Rightarrow> var_names sub (step_names steps) (entry_prefix entry) n)
              @ var_names env_prefix (step_names steps) (entry_prefix entry) n"
  have lk: "config_var_lookup env ?s0 nm = ?lk nm" for nm
    by (simp add: config_var_lookup_split assms(8) config_file_parse_once_simps
        split: option.splits)
  have app: "?app = rev names" by (cases sp) (simp_all add: assms(7))
  have "pass_effect env p (Some dfl) ign ?a True ?app ?s0 s'"
    by (rule fill_opts_effect [OF assms(4) assms(1) assms(2) _ assms(5) assms(6)])
      (simp add: assms(3))
  then have val: "slots s' ?a = pass_value env ?s0 p (Some dfl) ign (rev names) (m0 ?a)"
    unfolding app by (simp add: pass_effect_def config_file_parse_once_simps)
  have first: "(case List.map_filter ?lk names of [] \<Rightarrow> None | E # rest \<Rightarrow> Some E)
               = (case List.map_filter env names @ List.map_filter file_vars names of
                    [] \<Rightarrow> None | E # rest \<Rightarrow> Some E)"
    by (rule env_over_file_first [OF assms(9)])
  show ?thesis
  proof (intro conjI impI)
    assume a: "List.map_filter env names @ List.map_filter file_vars names = E # rest
               \<and> (\<forall>x. parser_read p E x = (1, vE))"
    with first obtain rest' where "List.map_filter ?lk names = E # rest'"
      by (cases "List.map_filter ?lk names") simp_all
    from map_filter_first [OF this] obtain hi nm lo where
      n: "names = hi @ nm # lo" and hi: "\<forall>h \<in> set hi. ?lk h = None" and nm: "?lk nm = Some E"
      by blast
    from hi have hi': "\<forall>h \<in> set (rev hi). config_var_lookup env ?s0 h = None"
      by (simp add: lk)
    from nm have nm': "config_var_lookup env ?s0 nm = Some E" by (simp add: lk)
    have "pass_value env ?s0 p (Some dfl) ign (rev lo @ nm # rev hi) (m0 ?a)
          = applied_value p (Some dfl) ign E (pass_value env ?s0 p (Some dfl) ign (rev lo) (m0 ?a))"
      by (rule pass_value_decided [OF hi' nm'])
    also have "\<dots> = vE" using a by (simp add: applied_value_accepted)
    finally show "slots s' ?a = vE" unfolding val n by simp
  next
    assume "List.map_filter env names @ List.map_filter file_vars names = []"
    with first have "List.map_filter ?lk names = []"
      by (cases "List.map_filter ?lk names") simp_all
    then have "\<forall>nm \<in> set (rev names). config_var_lookup env ?s0 nm = None"
      by (simp add: map_filter_empty lk)
    from pass_value_unset [OF this] show "slots s' ?a = m0 ?a" unfolding val .
  next
    assume a: "plain_tables steps \<and> (\<forall>x. parser_read p dfl x = (1, vD))"
    from set_default_values_nested [OF assms(5) [unfolded assms(1)] assms(2) _ assms(3)] a
    obtain x where "parser_read p dfl x = (1, m0 ?a)" by blast
    with a show "m0 ?a = vD" by simp
  qed
qed

theorem C1_precedence_witness:
  "ucs_config_parser_fill_opts fnmatch0 [''UCX_FOO_IB_QKEY'' \<mapsto> ''7'', ''FOO_QKEY'' \<mapsto> ''9'']
     (\<lambda>m. m) 0
     \<lparr>entry_table =
        [Field ''NUM'' (Some ''1'') 0 (config_type_uint [])]
        @ TableField ''IB_'' (Some []) 10
            ([Field ''TLS'' (Some ''all'') 0 (config_type_string [])]
             @ Field ''QKEY'' (Some ''1'') 1 (config_type_uint []) # [])
        # [],
      entry_prefix = Some [], entry_loaded = False\<rparr>
     ''UCX_FOO_'' False
     \<lparr>slots = (\<lambda>a. VUint 0), ucs_config_parser_env_vars = {},
      ucs_config_file_vars = [''FOO_IB_QKEY'' \<mapsto> ''8''], config_file_parse = False\<rparr>
   = (UCS_OK,
      \<lparr>slots = (\<lambda>a. VUint 0)(0 := VUint 1, 10 := VString (Some ''all''), 11 := VUint 7),
       ucs_config_parser_env_vars = {''FOO_IB_QKEY'', ''FOO_QKEY'', ''UCX_FOO_IB_QKEY''},
       ucs_config_file_vars = [''FOO_IB_QKEY'' \<mapsto> ''8''], config_file_parse = True\<rparr>,
      \<lparr>entry_table =
        [Field ''NUM'' (Some ''1'') 0 (config_type_uint [])]
        @ TableField ''IB_'' (Some []) 10
            ([Field ''TLS'' (Some ''all'') 0 (config_type_string [])]
             @ Field ''QKEY'' (Some ''1'') 1 (config_type_uint []) # [])
        # [],
       entry_prefix = Some [], entry_loaded = True\<rparr>)
   \<and> slots \<lparr>slots = (\<lambda>a. VUint 0)(0 := VUint 1, 10 := VString (Some ''all''), 11 := VUint 7),
            ucs_config_parser_env_vars = {''FOO_IB_QKEY'', ''FOO_QKEY'', ''UCX_FOO_IB_QKEY''},
            ucs_config_file_vars = [''FOO_IB_QKEY'' \<mapsto> ''8''], config_file_parse = True\<rparr>
       11
     = VUint 7
   \<and> ((\<lambda>a. VUint 0)(0 := VUint 1, 10 := VString (Some ''all''), 11 := VUint 1))
       11
     = VUint 1"
proof -
  let ?env = "[''UCX_FOO_IB_QKEY'' \<mapsto> ''7'', ''FOO_QKEY'' \<mapsto> ''9'']"
  let ?fv = "[''FOO_IB_QKEY'' \<mapsto> ''8'']"
  let ?front = "[Field ''NUM'' (Some ''1'') 0 (config_type_uint [])]"
  let ?steps = "[(?front, ''IB_'', Some [], 10 :: nat, [])]"
  let ?pre = "[Field ''TLS'' (Some ''all'') 0 (config_type_string [])]"
  let ?entry = "\<lparr>entry_table =
        ?front @ TableField ''IB_'' (Some []) 10
                  (?pre @ Field ''QKEY'' (Some ''1'') 1 (config_type_uint []) # []) # [],
      entry_prefix = Some [], entry_loaded = False\<rparr>"
  let ?s = "\<lparr>slots = (\<lambda>a. VUint 0), ucs_config_parser_env_vars = {},
      ucs_config_file_vars = ?fv, config_file_parse = False\<rparr> :: config_value config_state"
  let ?m0 = "(\<lambda>a. VUint 0)(0 := VUint 1, 10 := VString (Some ''all''), 11 := VUint 1)
             :: nat \<Rightarrow> config_value"
  let ?s' = "\<lparr>slots = (\<lambda>a. VUint 0)(0 := VUint 1, 10 := VString (Some ''all''), 11 := VUint 7),
       ucs_config_parser_env_vars = {''FOO_IB_QKEY'', ''FOO_QKEY'', ''UCX_FOO_IB_QKEY''},
       ucs_config_file_vars = ?fv, config_file_parse = True\<rparr>"
  let ?names = "[''UCX_FOO_QKEY'', ''UCX_FOO_IB_QKEY'', ''FOO_QKEY'', ''FOO_IB_QKEY'']"
  have tbl: "entry_table ?entry
             = nest ?steps (?pre @ Field ''QKEY'' (Some ''1'') 1 (config_type_uint []) # [])"
    by simp
  have nd: "(1::nat) \<noteq> UCS_CONFIG_DEPRECATED_FIELD_OFFSET"
    by (simp add: UCS_CONFIG_DEPRECATED_FIELD_OFFSET_def)
  have alone: "field_alone 0 ?steps ?pre 1 []"
    by (simp add: UCS_CONFIG_DEPRECATED_FIELD_OFFSET_def)
  have d: "ucs_config_parser_set_default_values fnmatch0 0 (entry_table ?entry) (slots ?s)
           = (UCS_OK, ?m0)"
    by (simp add: fill_eval path_eval fun_eq_iff)
  have sp: "ucs_config_parser_get_sub_prefix ''UCX_FOO_'' = Inr (Some ''FOO_'')"
    by (simp add: sub_prefix_values)
  have ev: "ucs_config_parser_fill_opts fnmatch0 ?env (\<lambda>m. m) 0 ?entry ''UCX_FOO_'' False ?s
            = (UCS_OK, ?s', ?entry\<lparr>entry_loaded := True\<rparr>)"
    by (simp add: fill_eval path_eval fun_eq_iff insert_commute)
  have names: "?names = rev (var_names ''UCX_FOO_'' (step_names ?steps) (entry_prefix ?entry) ''QKEY'')
                 @ (case Some ''FOO_'' of
                      None \<Rightarrow> []
                    | Some sub \<Rightarrow> rev (var_names sub (step_names ?steps) (entry_prefix ?entry) ''QKEY''))"
    by (simp add: fill_eval path_eval)
  have fv: "?fv = ucs_config_file_vars (config_file_parse_once (\<lambda>m. m) ?s)"
    by (simp add: config_file_parse_once_def)
  have eof: "env_over_file ?env ?fv ?names" by simp
  have texts: "List.map_filter ?env ?names @ List.map_filter ?fv ?names = ''7'' # [''9'', ''8'']
               \<and> (\<forall>x. parser_read (config_type_uint []) ''7'' x = (1, VUint 7))"
    by (simp add: path_eval)
  have dflt: "plain_tables ?steps \<and> (\<forall>x. parser_read (config_type_uint []) ''1'' x = (1, VUint 1))"
    by (simp add: strtok_r_def UCS_CONFIG_DEPRECATED_FIELD_OFFSET_def uint_reads_more)
  note t = C1_precedence [OF tbl nd alone ev d sp names fv eof]
  note t1 = t [THEN conjunct1, rule_format, OF texts]
  note t3 = t [THEN conjunct2, THEN conjunct2, rule_format, OF dflt]
  from ev t1 t3 show ?thesis by simp
qed


text \<open>
  Claim C2, as stated: whenever \<^verbatim>\<open>fill_opts\<close> returns a status other than \<^verbatim>\<open>UCS_OK\<close>
  it has released the options. When a default text is refused, the code jumps to the
  label \<^verbatim>\<open>err\<close>, behind the call of \<^verbatim>\<open>ucs_config_parser_release_opts\<close>: the string
  slot set from the first default is still allocated in the state returned, and
  releasing the options would have freed it.
\<close>

theorem C2_default_failure_not_released_counterexample:
  "ucs_config_parser_fill_opts fnmatch0 Map.empty (\<lambda>m. m) 0
     \<lparr>entry_table = [Field ''NAME'' (Some ''dflt'') 0 (config_type_string []),
                      Field ''NUM'' (Some ''banana'') 1 (config_type_uint [])],
      entry_prefix = Some [], entry_loaded = False\<rparr>
     ''UCX_'' False
     \<lparr>slots = (\<lambda>a. VUint 0), ucs_config_parser_env_vars = {},
      ucs_config_file_vars = Map.empty, config_file_parse = False\<rparr>
   = (UCS_ERR_INVALID_PARAM,
      \<lparr>slots = (\<lambda>a. VUint 0)(0 := VString (Some ''dflt'')), ucs_config_parser_env_vars = {},
       ucs_config_file_vars = Map.empty, config_file_parse = False\<rparr>,
      \<lparr>entry_table = [Field ''NAME'' (Some ''dflt'') 0 (config_type_string []),
                       Field ''NUM'' (Some ''banana'') 1 (config_type_uint [])],
       entry_prefix = Some [], entry_loaded = False\<rparr>)
   \<and> ucs_config_parser_release_opts 0
         [Field ''NAME'' (Some ''dflt'') 0 (config_type_string []),
          Field ''NUM'' (Some ''banana'') 1 (config_type_uint [])]
         ((\<lambda>a. VUint 0)(0 := VString (Some ''dflt''))) 0
       = VString None"
  by (simp add: fill_eval fun_eq_iff)

text \<open>
  Claim C2, amended: when setting the defaults fails, \<^verbatim>\<open>fill_opts\<close> returns that
  status with the options as the defaults left them, not released. When the defaults
  were set and the sub-prefix computed, a status other than \<^verbatim>\<open>UCS_OK\<close> comes from
  applying the environment and file values, in the sub-prefix pass or in the pass with
  the full prefix, and \<^verbatim>\<open>fill_opts\<close> returns it after
  \<^verbatim>\<open>ucs_config_parser_release_opts\<close> on the whole table; the entry is not marked as
  loaded.
\<close>

theorem C2_release_on_apply_failure:
  "(ucs_config_parser_set_default_values fnm opts (entry_table entry) (slots s) = (st0, m0)
      \<and> st0 \<noteq> UCS_OK \<longrightarrow>
    ucs_config_parser_fill_opts fnm env parse_files opts entry env_prefix ign s
      = (st0, s\<lparr>slots := m0\<rparr>, entry))
   \<and> (ucs_config_parser_set_default_values fnm opts (entry_table entry) (slots s) = (UCS_OK, m0)
      \<and> ucs_config_parser_get_sub_prefix env_prefix = Inr sp
      \<and> s0 = config_file_parse_once parse_files (s\<lparr>slots := m0\<rparr>)
      \<and> pass1 = (case sp of
                    None \<Rightarrow> (UCS_OK, s0)
                  | Some sub \<Rightarrow>
                      ucs_config_apply_config_vars env opts (entry_table entry) sub
                        (entry_prefix entry) True ign s0)
      \<and> fst (ucs_config_parser_fill_opts fnm env parse_files opts entry env_prefix ign s)
          \<noteq> UCS_OK \<longrightarrow>
    (\<exists>status s2.
        (pass1 = (status, s2)
         \<or> fst pass1 = UCS_OK
           \<and> ucs_config_apply_config_vars env opts (entry_table entry) env_prefix
                (entry_prefix entry) True ign (snd pass1) = (status, s2))
        \<and> status \<noteq> UCS_OK
        \<and> ucs_config_parser_fill_opts fnm env parse_files opts entry env_prefix ign s
          = (status,
             s2\<lparr>slots := ucs_config_parser_release_opts opts (entry_table entry) (slots s2)\<rparr>,
             entry)))"
proof (intro conjI impI)
  assume "ucs_config_parser_set_default_values fnm opts (entry_table entry) (slots s) = (st0, m0)
      \<and> st0 \<noteq> UCS_OK"
  then show "ucs_config_parser_fill_opts fnm env parse_files opts entry env_prefix ign s
      = (st0, s\<lparr>slots := m0\<rparr>, entry)"
    by (simp add: ucs_config_parser_fill_opts_def)
next
  assume a: "ucs_config_parser_set_default_values fnm opts (entry_table entry) (slots s) = (UCS_OK, m0)
      \<and> ucs_config_parser_get_sub_prefix env_prefix = Inr sp
      \<and> s0 = config_file_parse_once parse_files (s\<lparr>slots := m0\<rparr>)
      \<and> pass1 = (case sp of
                    None \<Rightarrow> (UCS_OK, s0)
                  | Some sub \<Rightarrow>
                      ucs_config_apply_config_vars env opts (entry_table entry) sub
                        (entry_prefix entry) True ign s0)
      \<and> fst (ucs_config_parser_fill_opts fnm env parse_files opts entry env_prefix ign s)
          \<noteq> UCS_OK"
  obtain st1 s1 where p1: "pass1 = (st1, s1)" by (cases pass1)
  obtain st2 s2 where p2: "ucs_config_apply_config_vars env opts (entry_table entry) env_prefix
                (entry_prefix entry) True ign s1 = (st2, s2)"
    by (cases "ucs_config_apply_config_vars env opts (entry_table entry) env_prefix
                (entry_prefix entry) True ign s1")
  have fill: "ucs_config_parser_fill_opts fnm env parse_files opts entry env_prefix ign s =
      (if st1 \<noteq> UCS_OK
       then (st1, s1\<lparr>slots := ucs_config_parser_release_opts opts (entry_table entry) (slots s1)\<rparr>,
             entry)
       else if st2 \<noteq> UCS_OK
       then (st2, s2\<lparr>slots := ucs_config_parser_release_opts opts (entry_table entry) (slots s2)\<rparr>,
             entry)
       else (UCS_OK, s2, entry\<lparr>entry_loaded := True\<rparr>))"
  proof -
    from a have d: "ucs_config_parser_set_default_values fnm opts (entry_table entry) (slots s)
                    = (UCS_OK, m0)"
      and sp: "ucs_config_parser_get_sub_prefix env_prefix = Inr sp"
      by simp_all
    from a have s0: "s0 = config_file_parse_once parse_files (s\<lparr>slots := m0\<rparr>)"
      and pass1: "pass1 = (case sp of
                    None \<Rightarrow> (UCS_OK, s0)
                  | Some sub \<Rightarrow>
                      ucs_config_apply_config_vars env opts (entry_table entry) sub
                        (entry_prefix entry) True ign s0)"
      by simp_all
    have p1': "(case sp of
                    None \<Rightarrow> (UCS_OK, config_file_parse_once parse_files (s\<lparr>slots := m0\<rparr>))
                  | Some sub \<Rightarrow>
                      ucs_config_apply_config_vars env opts (entry_table entry) sub
                        (entry_prefix entry) True ign
                        (config_file_parse_once parse_files (s\<lparr>slots := m0\<rparr>))) = (st1, s1)"
      using p1 unfolding pass1 s0 .
    show ?thesis
      by (simp add: ucs_config_parser_fill_opts_def d sp Let_def p1' p2)
  qed
  show "\<exists>status s2.
        (pass1 = (status, s2)
         \<or> fst pass1 = UCS_OK
           \<and> ucs_config_apply_config_vars env opts (entry_table entry) env_prefix
                (entry_prefix entry) True ign (snd pass1) = (status, s2))
        \<and> status \<noteq> UCS_OK
        \<and> ucs_config_parser_fill_opts fnm env parse_files opts entry env_prefix ign s
          = (status,
             s2\<lparr>slots := ucs_config_parser_release_opts opts (entry_table entry) (slots s2)\<rparr>,
             entry)"
  proof (cases "st1 = UCS_OK")
    case False
    with fill p1 show ?thesis by auto
  next
    case True
    with a fill have "st2 \<noteq> UCS_OK" by (auto split: if_splits)
    with True fill p1 p2 show ?thesis by auto
  qed
qed

theorem C2_release_on_apply_failure_witness:
  "ucs_config_parser_fill_opts fnmatch0 [''UCX_NUM'' \<mapsto> ''banana''] (\<lambda>m. m) 0
     \<lparr>entry_table = [Field ''NAME'' (Some ''dflt'') 0 (config_type_string []),
                      Field ''NUM'' (Some ''1'') 1 (config_type_uint [])],
      entry_prefix = Some [], entry_loaded = False\<rparr>
     ''UCX_'' False
     \<lparr>slots = (\<lambda>a. VUint 0), ucs_config_parser_env_vars = {},
      ucs_config_file_vars = Map.empty, config_file_parse = False\<rparr>
   = (UCS_ERR_INVALID_PARAM,
      \<lparr>slots = (\<lambda>a. VUint 0)(0 := VString None, 1 := VUint 1),
       ucs_config_parser_env_vars = {''UCX_NUM''},
       ucs_config_file_vars = Map.empty, config_file_parse = True\<rparr>,
      \<lparr>entry_table = [Field ''NAME'' (Some ''dflt'') 0 (config_type_string []),
                       Field ''NUM'' (Some ''1'') 1 (config_type_uint [])],
       entry_prefix = Some [], entry_loaded = False\<rparr>)
   \<and> (\<exists>s2. snd (ucs_config_parser_fill_opts fnmatch0 [''UCX_NUM'' \<mapsto> ''banana''] (\<lambda>m. m) 0
            \<lparr>entry_table = [Field ''NAME'' (Some ''dflt'') 0 (config_type_string []),
                             Field ''NUM'' (Some ''1'') 1 (config_type_uint [])],
             entry_prefix = Some [], entry_loaded = False\<rparr>
            ''UCX_'' False
            \<lparr>slots = (\<lambda>a. VUint 0), ucs_config_parser_env_vars = {},
             ucs_config_file_vars = Map.empty, config_file_parse = False\<rparr>)
         = (s2\<lparr>slots := ucs_config_parser_release_opts 0
                            [Field ''NAME'' (Some ''dflt'') 0 (config_type_string []),
                             Field ''NUM'' (Some ''1'') 1 (config_type_uint [])] (slots s2)\<rparr>,
            \<lparr>entry_table = [Field ''NAME'' (Some ''dflt'') 0 (config_type_string []),
                             Field ''NUM'' (Some ''1'') 1 (config_type_uint [])],
             entry_prefix = Some [], entry_loaded = False\<rparr>))"
proof -
  let ?table = "[Field ''NAME'' (Some ''dflt'') 0 (config_type_string []),
                 Field ''NUM'' (Some ''1'') 1 (config_type_uint [])]"
  let ?entry = "\<lparr>entry_table = ?table, entry_prefix = Some [], entry_loaded = False\<rparr>"
  let ?s = "\<lparr>slots = (\<lambda>a. VUint 0), ucs_config_parser_env_vars = {},
      ucs_config_file_vars = Map.empty, config_file_parse = False\<rparr>
      :: config_value config_state"
  let ?env = "[''UCX_NUM'' \<mapsto> ''banana'']"
  let ?m0 = "(\<lambda>a. VUint 0)(0 := VString (Some ''dflt''), 1 := VUint 1) :: nat \<Rightarrow> config_value"
  have run: "ucs_config_parser_fill_opts fnmatch0 ?env (\<lambda>m. m) 0 ?entry ''UCX_'' False ?s
   = (UCS_ERR_INVALID_PARAM,
      \<lparr>slots = (\<lambda>a. VUint 0)(0 := VString None, 1 := VUint 1),
       ucs_config_parser_env_vars = {''UCX_NUM''},
       ucs_config_file_vars = Map.empty, config_file_parse = True\<rparr>, ?entry)"
    by (simp add: fill_eval fun_eq_iff)
  have d: "ucs_config_parser_set_default_values fnmatch0 0 (entry_table ?entry) (slots ?s)
           = (UCS_OK, ?m0)"
    by (simp add: fill_eval fun_eq_iff)
  have sp: "ucs_config_parser_get_sub_prefix ''UCX_'' = Inr None"
    by (simp add: sub_prefix_values)
  have ne: "fst (ucs_config_parser_fill_opts fnmatch0 ?env (\<lambda>m. m) 0 ?entry ''UCX_'' False ?s)
            \<noteq> UCS_OK"
    unfolding run by simp
  note t = C2_release_on_apply_failure [where fnm = fnmatch0 and opts = 0 and entry = ?entry
      and s = ?s and ?m0.0 = ?m0 and env = ?env and parse_files = "\<lambda>m. m"
      and env_prefix = "''UCX_''" and ign = False and sp = None
      and ?s0.0 = "config_file_parse_once (\<lambda>m. m) (?s\<lparr>slots := ?m0\<rparr>)"
      and ?pass1.0 = "(UCS_OK, config_file_parse_once (\<lambda>m. m) (?s\<lparr>slots := ?m0\<rparr>))",
      THEN conjunct2, rule_format]
  from t d sp ne
  obtain status s2 where
    "ucs_config_parser_fill_opts fnmatch0 ?env (\<lambda>m. m) 0 ?entry ''UCX_'' False ?s
          = (status,
             s2\<lparr>slots := ucs_config_parser_release_opts 0 (entry_table ?entry) (slots s2)\<rparr>,
             ?entry)"
    by auto
  then have "snd (ucs_config_parser_fill_opts fnmatch0 ?env (\<lambda>m. m) 0 ?entry ''UCX_'' False ?s)
      = (s2\<lparr>slots := ucs_config_parser_release_opts 0 ?table (slots s2)\<rparr>, ?entry)"
    by simp
  with run show ?thesis by blast
qed


lemma fill_opts_sub_pass_failed:
  assumes "ucs_config_parser_set_default_values fnm opts (entry_table entry) (slots s) = (UCS_OK, m0)"
    and "ucs_config_parser_get_sub_prefix env_prefix = Inr (Some sub)"
    and "ucs_config_apply_config_vars env opts (entry_table entry) sub (entry_prefix entry) True ign
           (config_file_parse_once parse_files (s\<lparr>slots := m0\<rparr>)) = (st, s1)"
    and "st \<noteq> UCS_OK"
  shows "ucs_config_parser_fill_opts fnm env parse_files opts entry env_prefix ign s
         = (st, s1\<lparr>slots := ucs_config_parser_release_opts opts (entry_table entry) (slots s1)\<rparr>,
            entry)"
  using assms(4) by (simp add: ucs_config_parser_fill_opts_def assms(1,2,3) Let_def)

lemma fill_opts_full_pass:
  assumes "ucs_config_parser_set_default_values fnm opts (entry_table entry) (slots s) = (UCS_OK, m0)"
    and "ucs_config_parser_get_sub_prefix env_prefix = Inr sp"
    and "(case sp of
            None \<Rightarrow> (UCS_OK, config_file_parse_once parse_files (s\<lparr>slots := m0\<rparr>))
          | Some sub \<Rightarrow>
              ucs_config_apply_config_vars env opts (entry_table entry) sub (entry_prefix entry)
                True ign (config_file_parse_once parse_files (s\<lparr>slots := m0\<rparr>)))
         = (UCS_OK, s1)"
    and "ucs_config_apply_config_vars env opts (entry_table entry) env_prefix (entry_prefix entry)
           True ign s1 = (st, s2)"
  shows "ucs_config_parser_fill_opts fnm env parse_files opts entry env_prefix ign s
         = (if st \<noteq> UCS_OK
            then (st,
                  s2\<lparr>slots := ucs_config_parser_release_opts opts (entry_table entry) (slots s2)\<rparr>,
                  entry)
            else (UCS_OK, s2, entry\<lparr>entry_loaded := True\<rparr>))"
  by (simp add: ucs_config_parser_fill_opts_def assms Let_def)


text \<open>
  Claim C5, as stated: with \<^verbatim>\<open>ignore_errors\<close>, a field for which a value was refused
  holds the value of its default text when \<^verbatim>\<open>fill_opts\<close> returns. With the prefix
  \<^verbatim>\<open>UCX_FOO_\<close> the variables named \<^verbatim>\<open>FOO_...\<close> are applied first: \<^verbatim>\<open>FOO_NUM=banana\<close>
  is refused and the default \<^verbatim>\<open>1\<close> is read in its place; the pass of the full prefix then
  reads \<^verbatim>\<open>UCX_FOO_NUM=5\<close> into the slot, and the field ends as 5.
\<close>

theorem C5_full_prefix_overrides_counterexample:
  "ucs_config_parser_fill_opts fnmatch0 [''FOO_NUM'' \<mapsto> ''banana'', ''UCX_FOO_NUM'' \<mapsto> ''5'']
     (\<lambda>m. m) 0
     \<lparr>entry_table = [Field ''NUM'' (Some ''1'') 0 (config_type_uint [])],
      entry_prefix = Some [], entry_loaded = False\<rparr>
     ''UCX_FOO_'' True
     \<lparr>slots = (\<lambda>a. VUint 0), ucs_config_parser_env_vars = {},
      ucs_config_file_vars = Map.empty, config_file_parse = False\<rparr>
   = (UCS_OK,
      \<lparr>slots = (\<lambda>a. VUint 0)(0 := VUint 5),
       ucs_config_parser_env_vars = {''FOO_NUM'', ''UCX_FOO_NUM''},
       ucs_config_file_vars = Map.empty, config_file_parse = True\<rparr>,
      \<lparr>entry_table = [Field ''NUM'' (Some ''1'') 0 (config_type_uint [])],
       entry_prefix = Some [], entry_loaded = True\<rparr>)
   \<and> parser_read (config_type_uint []) ''banana'' (VUint 1) = (0, VUint 1)
   \<and> parser_read (config_type_uint []) ''1'' (VUint 0) = (1, VUint 1)"
  by (simp add: fill_eval fun_eq_iff insert_commute)

text \<open>
  Claim C5, amended: let a field that is neither a table, an alias nor deprecated lie in the
  entry's table or in a sub-table of it, at any depth, and let the value found under a name
  \<open>nm\<close> (in the environment or, the environment having none, in the file map) be refused by
  the parser of the field. Without \<^verbatim>\<open>ignore_errors\<close>, when \<open>nm\<close> is one of the names of the
  field (those of C1, built with \<^verbatim>\<open>env_prefix\<close> or with the sub-prefix) and every field has a
  default text, \<^verbatim>\<open>fill_opts\<close> returns \<^verbatim>\<open>UCS_ERR_INVALID_PARAM\<close> with the options released
  and the entry not marked as loaded. With \<^verbatim>\<open>ignore_errors\<close>, every default text being
  accepted by its parser, \<^verbatim>\<open>fill_opts\<close> returns \<^verbatim>\<open>UCS_OK\<close>; the field then holds the value
  of its default text provided no value is found under a name that comes before \<open>nm\<close> in the
  order of C1 and no other field writes the slot. A value found under a name that comes
  before \<open>nm\<close> is applied after the refused one and decides the field in its place.
\<close>

theorem C5_invalid_value:
  assumes "entry_table entry = nest steps (pre @ Field n (Some dfl) off p # post)"
    and "off \<noteq> UCS_CONFIG_DEPRECATED_FIELD_OFFSET"
    and "ucs_config_parser_set_default_values fnm opts (entry_table entry) (slots s) = (UCS_OK, m0)"
    and "ucs_config_parser_get_sub_prefix env_prefix = Inr sp"
    and "names = rev (var_names env_prefix (step_names steps) (entry_prefix entry) n)
                 @ (case sp of
                      None \<Rightarrow> []
                    | Some sub \<Rightarrow> rev (var_names sub (step_names steps) (entry_prefix entry) n))"
    and "s0 = config_file_parse_once parse_files (s\<lparr>slots := m0\<rparr>)"
    and "config_var_lookup env s0 nm = Some v"
    and "\<forall>x. fst (parser_read p v x) \<noteq> 1"
  shows "(\<not> ign \<and> nm \<in> set names
          \<and> (\<forall>f \<in> set (leaf_fields (entry_table entry)). dfl_value f \<noteq> None) \<longrightarrow>
          (\<exists>s1. ucs_config_parser_fill_opts fnm env parse_files opts entry env_prefix ign s
                = (UCS_ERR_INVALID_PARAM,
                   s1\<lparr>slots := ucs_config_parser_release_opts opts (entry_table entry)
                                   (slots s1)\<rparr>,
                   entry)))
         \<and> (ign
             \<and> (\<forall>f \<in> set (leaf_fields (entry_table entry)).
                   \<exists>d. dfl_value f = Some d \<and> (\<forall>x. fst (parser_read (field_parser f) d x) = 1))
             \<longrightarrow>
          (\<exists>s'. ucs_config_parser_fill_opts fnm env parse_files opts entry env_prefix ign s
                = (UCS_OK, s', entry\<lparr>entry_loaded := True\<rparr>)
                \<and> (names = hi @ nm # lo
                    \<and> (\<forall>h \<in> set hi. config_var_lookup env s0 h = None)
                    \<and> field_alone opts steps pre off post
                    \<and> (\<forall>x. parser_read p dfl x = (1, vD)) \<longrightarrow>
                    slots s' (nest_opts opts steps + off) = vD)))"
proof (intro conjI impI)
  let ?a = "nest_opts opts steps + off"
  let ?tp = "entry_prefix entry"
  let ?fill = "ucs_config_parser_fill_opts fnm env parse_files opts entry env_prefix ign s"
  let ?s0 = "config_file_parse_once parse_files (s\<lparr>slots := m0\<rparr>)"
  let ?app = "(case sp of
                 None \<Rightarrow> []
               | Some sub \<Rightarrow> var_names sub (step_names steps) ?tp n)
              @ var_names env_prefix (step_names steps) ?tp n"
  let ?pass1 = "case sp of
                  None \<Rightarrow> (UCS_OK, ?s0)
                | Some sub \<Rightarrow>
                    ucs_config_apply_config_vars env opts (entry_table entry) sub ?tp True ign ?s0"
  have app: "?app = rev names" by (cases sp) (simp_all add: assms(5))
  obtain st1 s1 where p1: "?pass1 = (st1, s1)" by (cases ?pass1)
  obtain st2 s2 where
    p2: "ucs_config_apply_config_vars env opts (entry_table entry) env_prefix ?tp True ign s1
         = (st2, s2)"
    by (cases "ucs_config_apply_config_vars env opts (entry_table entry) env_prefix ?tp True ign s1")
  have full: "?fill = (if st2 \<noteq> UCS_OK
                       then (st2,
                             s2\<lparr>slots := ucs_config_parser_release_opts opts (entry_table entry)
                                             (slots s2)\<rparr>,
                             entry)
                       else (UCS_OK, s2, entry\<lparr>entry_loaded := True\<rparr>))"
    if "st1 = UCS_OK"
    by (rule fill_opts_full_pass [OF assms(3,4) p1 [unfolded that] p2])
  {
    assume a: "\<not> ign \<and> nm \<in> set names
               \<and> (\<forall>f \<in> set (leaf_fields (entry_table entry)). dfl_value f \<noteq> None)"
    then have dfls: "\<forall>f \<in> set (leaf_fields (entry_table entry)). dfl_value f \<noteq> None"
      and nign: "\<not> ign" and mem: "nm \<in> set names"
      by simp_all
    have c1: "st1 = UCS_OK \<or> st1 = UCS_ERR_INVALID_PARAM"
    proof (cases sp)
      case None
      with p1 show ?thesis by simp
    next
      case (Some sub)
      with p1 apply_status_with_defaults [OF dfls, of env opts sub ?tp True ign ?s0]
      show ?thesis by simp
    qed
    have c2: "st2 = UCS_OK \<or> st2 = UCS_ERR_INVALID_PARAM"
      using p2 apply_status_with_defaults [OF dfls, of env opts env_prefix ?tp True ign s1]
      by simp
    show "\<exists>s1. ?fill = (UCS_ERR_INVALID_PARAM,
                        s1\<lparr>slots := ucs_config_parser_release_opts opts (entry_table entry)
                                        (slots s1)\<rparr>,
                        entry)"
    proof (cases "st1 = UCS_OK")
      case False
      with c1 have inv: "st1 = UCS_ERR_INVALID_PARAM" by simp
      from False p1 obtain sub where sub: "sp = Some sub" by (cases sp) simp_all
      with p1 have "ucs_config_apply_config_vars env opts (entry_table entry) sub ?tp True ign ?s0
                    = (st1, s1)"
        by simp
      from fill_opts_sub_pass_failed [OF assms(3) assms(4) [unfolded sub] this False] inv
      show ?thesis by blast
    next
      case True
      show ?thesis
      proof (cases "st2 = UCS_OK")
        case False
        with c2 full [OF True] show ?thesis by auto
      next
        case ok: True
        with full [OF True] have f: "?fill = (UCS_OK, s2, entry\<lparr>entry_loaded := True\<rparr>)"
          by simp
        have "pass_effect env p (Some dfl) ign ?a False ?app ?s0 s2"
          by (rule fill_opts_effect [OF f assms(1) assms(2) _ assms(3) assms(4)]) simp
        with mem assms(7) obtain x where "applied_status p (Some dfl) ign v x = UCS_OK"
          unfolding app pass_effect_def assms(6) by auto
        with applied_status_rejected [OF assms(8), of "Some dfl" x] nign have False by simp
        then show ?thesis ..
      qed
    qed
  }
  {
    assume a: "ign
               \<and> (\<forall>f \<in> set (leaf_fields (entry_table entry)).
                     \<exists>d. dfl_value f = Some d
                         \<and> (\<forall>x. fst (parser_read (field_parser f) d x) = 1))"
    then have ign: "ign"
      and dfls: "\<forall>f \<in> set (leaf_fields (entry_table entry)).
                   \<exists>d. dfl_value f = Some d \<and> (\<forall>x. fst (parser_read (field_parser f) d x) = 1)"
      by simp_all
    have st1: "st1 = UCS_OK"
    proof (cases sp)
      case None
      with p1 show ?thesis by simp
    next
      case (Some sub)
      with p1 ign apply_status_ignore_errors [OF dfls, of env opts sub ?tp True ?s0]
      show ?thesis by simp
    qed
    have st2: "st2 = UCS_OK"
      using p2 ign apply_status_ignore_errors [OF dfls, of env opts env_prefix ?tp True s1]
      by simp
    from full [OF st1] st2 have f: "?fill = (UCS_OK, s2, entry\<lparr>entry_loaded := True\<rparr>)"
      by simp
    have slot: "slots s2 ?a = vD"
      if b: "names = hi @ nm # lo
             \<and> (\<forall>h \<in> set hi. config_var_lookup env s0 h = None)
             \<and> field_alone opts steps pre off post
             \<and> (\<forall>x. parser_read p dfl x = (1, vD))"
    proof -
      have "pass_effect env p (Some dfl) ign ?a True ?app ?s0 s2"
        by (rule fill_opts_effect [OF f assms(1) assms(2) _ assms(3) assms(4)]) (simp add: b)
      then have val: "slots s2 ?a
                      = pass_value env ?s0 p (Some dfl) ign (rev lo @ nm # rev hi) (slots ?s0 ?a)"
        unfolding app pass_effect_def using b by simp
      from b have hi: "\<forall>h \<in> set (rev hi). config_var_lookup env ?s0 h = None"
        by (simp add: assms(6))
      from assms(7) have nm: "config_var_lookup env ?s0 nm = Some v" by (simp add: assms(6))
      from pass_value_decided [OF hi nm, of p "Some dfl" ign "rev lo" "slots ?s0 ?a"]
        applied_value_rejected [OF assms(8), of dfl vD] b val
      show ?thesis by simp
    qed
    from f slot
    show "\<exists>s'. ?fill = (UCS_OK, s', entry\<lparr>entry_loaded := True\<rparr>)
               \<and> (names = hi @ nm # lo
                   \<and> (\<forall>h \<in> set hi. config_var_lookup env s0 h = None)
                   \<and> field_alone opts steps pre off post
                   \<and> (\<forall>x. parser_read p dfl x = (1, vD)) \<longrightarrow>
                   slots s' ?a = vD)"
      by blast
  }
qed

theorem C5_invalid_value_witness:
  "ucs_config_parser_fill_opts fnmatch0 [''FOO_IB_QKEY'' \<mapsto> ''banana''] (\<lambda>m. m) 0
     \<lparr>entry_table =
        [Field ''NUM'' (Some ''1'') 0 (config_type_uint [])]
        @ TableField ''IB_'' (Some []) 10
            ([Field ''TLS'' (Some ''all'') 0 (config_type_string [])]
             @ Field ''QKEY'' (Some ''1'') 1 (config_type_uint []) # [])
        # [],
      entry_prefix = Some [], entry_loaded = False\<rparr>
     ''UCX_FOO_'' False
     \<lparr>slots = (\<lambda>a. VUint 0), ucs_config_parser_env_vars = {},
      ucs_config_file_vars = Map.empty, config_file_parse = False\<rparr>
   = (UCS_ERR_INVALID_PARAM,
      \<lparr>slots = (\<lambda>a. VUint 0)(0 := VUint 1, 10 := VString None, 11 := VUint 1),
       ucs_config_parser_env_vars = {''FOO_IB_QKEY''},
       ucs_config_file_vars = Map.empty, config_file_parse = True\<rparr>,
      \<lparr>entry_table =
        [Field ''NUM'' (Some ''1'') 0 (config_type_uint [])]
        @ TableField ''IB_'' (Some []) 10
            ([Field ''TLS'' (Some ''all'') 0 (config_type_string [])]
             @ Field ''QKEY'' (Some ''1'') 1 (config_type_uint []) # [])
        # [],
      entry_prefix = Some [], entry_loaded = False\<rparr>)
   \<and> ucs_config_parser_fill_opts fnmatch0 [''FOO_IB_QKEY'' \<mapsto> ''banana''] (\<lambda>m. m) 0
     \<lparr>entry_table =
        [Field ''NUM'' (Some ''1'') 0 (config_type_uint [])]
        @ TableField ''IB_'' (Some []) 10
            ([Field ''TLS'' (Some ''all'') 0 (config_type_string [])]
             @ Field ''QKEY'' (Some ''1'') 1 (config_type_uint []) # [])
        # [],
      entry_prefix = Some [], entry_loaded = False\<rparr>
     ''UCX_FOO_'' True
     \<lparr>slots = (\<lambda>a. VUint 0), ucs_config_parser_env_vars = {},
      ucs_config_file_vars = Map.empty, config_file_parse = False\<rparr>
   = (UCS_OK,
      \<lparr>slots = (\<lambda>a. VUint 0)(0 := VUint 1, 10 := VString (Some ''all''), 11 := VUint 1),
       ucs_config_parser_env_vars = {''FOO_IB_QKEY''},
       ucs_config_file_vars = Map.empty, config_file_parse = True\<rparr>,
      \<lparr>entry_table =
        [Field ''NUM'' (Some ''1'') 0 (config_type_uint [])]
        @ TableField ''IB_'' (Some []) 10
            ([Field ''TLS'' (Some ''all'') 0 (config_type_string [])]
             @ Field ''QKEY'' (Some ''1'') 1 (config_type_uint []) # [])
        # [],
      entry_prefix = Some [], entry_loaded = True\<rparr>)"
proof -
  let ?env = "[''FOO_IB_QKEY'' \<mapsto> ''banana'']"
  let ?front = "[Field ''NUM'' (Some ''1'') 0 (config_type_uint [])]"
  let ?steps = "[(?front, ''IB_'', Some [], 10 :: nat, [])]"
  let ?pre = "[Field ''TLS'' (Some ''all'') 0 (config_type_string [])]"
  let ?entry = "\<lparr>entry_table =
        ?front @ TableField ''IB_'' (Some []) 10
                  (?pre @ Field ''QKEY'' (Some ''1'') 1 (config_type_uint []) # []) # [],
      entry_prefix = Some [], entry_loaded = False\<rparr>"
  let ?s = "\<lparr>slots = (\<lambda>a. VUint 0), ucs_config_parser_env_vars = {},
      ucs_config_file_vars = Map.empty, config_file_parse = False\<rparr>
      :: config_value config_state"
  let ?m0 = "(\<lambda>a. VUint 0)(0 := VUint 1, 10 := VString (Some ''all''), 11 := VUint 1)
             :: nat \<Rightarrow> config_value"
  let ?names = "[''UCX_FOO_QKEY'', ''UCX_FOO_IB_QKEY'', ''FOO_QKEY'', ''FOO_IB_QKEY'']"
  let ?init = "config_file_parse_once (\<lambda>m. m) (?s\<lparr>slots := ?m0\<rparr>)"
  let ?R = "\<lparr>slots = (\<lambda>a. VUint 0)(0 := VUint 1, 10 := VString None, 11 := VUint 1),
       ucs_config_parser_env_vars = {''FOO_IB_QKEY''},
       ucs_config_file_vars = Map.empty, config_file_parse = True\<rparr>
       :: config_value config_state"
  let ?S = "\<lparr>slots = (\<lambda>a. VUint 0)(0 := VUint 1, 10 := VString (Some ''all''), 11 := VUint 1),
       ucs_config_parser_env_vars = {''FOO_IB_QKEY''},
       ucs_config_file_vars = Map.empty, config_file_parse = True\<rparr>
       :: config_value config_state"
  have tbl: "entry_table ?entry
             = nest ?steps (?pre @ Field ''QKEY'' (Some ''1'') 1 (config_type_uint []) # [])"
    by simp
  have nd: "(1::nat) \<noteq> UCS_CONFIG_DEPRECATED_FIELD_OFFSET"
    by (simp add: UCS_CONFIG_DEPRECATED_FIELD_OFFSET_def)
  have d: "ucs_config_parser_set_default_values fnmatch0 0 (entry_table ?entry) (slots ?s)
           = (UCS_OK, ?m0)"
    by (simp add: fill_eval path_eval fun_eq_iff)
  have sp: "ucs_config_parser_get_sub_prefix ''UCX_FOO_'' = Inr (Some ''FOO_'')"
    by (simp add: sub_prefix_values)
  have names: "?names = rev (var_names ''UCX_FOO_'' (step_names ?steps) (entry_prefix ?entry) ''QKEY'')
                 @ (case Some ''FOO_'' of
                      None \<Rightarrow> []
                    | Some sub \<Rightarrow> rev (var_names sub (step_names ?steps) (entry_prefix ?entry) ''QKEY''))"
    by (simp add: fill_eval path_eval)
  have found: "config_var_lookup ?env ?init ''FOO_IB_QKEY'' = Some ''banana''"
    by (simp add: config_var_lookup_def)
  have rej: "\<forall>x. fst (parser_read (config_type_uint []) ''banana'' x) \<noteq> 1"
    by (simp add: uint_reads)
  note t = C5_invalid_value [OF tbl nd d sp names refl found rej]
  have h1: "\<not> False \<and> ''FOO_IB_QKEY'' \<in> set ?names
            \<and> (\<forall>f \<in> set (leaf_fields (entry_table ?entry)). dfl_value f \<noteq> None)"
    by (simp add: UCS_CONFIG_DEPRECATED_FIELD_OFFSET_def)
  have h2: "True
            \<and> (\<forall>f \<in> set (leaf_fields (entry_table ?entry)).
                  \<exists>d. dfl_value f = Some d \<and> (\<forall>x. fst (parser_read (field_parser f) d x) = 1))"
    by (simp add: UCS_CONFIG_DEPRECATED_FIELD_OFFSET_def uint_reads_more string_parser_simps)
  have h3: "?names = [''UCX_FOO_QKEY'', ''UCX_FOO_IB_QKEY'', ''FOO_QKEY''] @ ''FOO_IB_QKEY'' # []
            \<and> (\<forall>h \<in> set [''UCX_FOO_QKEY'', ''UCX_FOO_IB_QKEY'', ''FOO_QKEY''].
                  config_var_lookup ?env ?init h = None)
            \<and> field_alone 0 ?steps ?pre 1 []
            \<and> (\<forall>x. parser_read (config_type_uint []) ''1'' x = (1, VUint 1))"
    by (simp add: config_var_lookup_def config_file_parse_once_def
        UCS_CONFIG_DEPRECATED_FIELD_OFFSET_def uint_reads_more)
  from t [THEN conjunct1, rule_format, OF h1] obtain s1 where
    r1: "ucs_config_parser_fill_opts fnmatch0 ?env (\<lambda>m. m) 0 ?entry ''UCX_FOO_'' False ?s
         = (UCS_ERR_INVALID_PARAM,
            s1\<lparr>slots := ucs_config_parser_release_opts 0 (entry_table ?entry) (slots s1)\<rparr>,
            ?entry)"
    by blast
  from t [THEN conjunct2, rule_format, OF h2] obtain s' where
    r2: "ucs_config_parser_fill_opts fnmatch0 ?env (\<lambda>m. m) 0 ?entry ''UCX_FOO_'' True ?s
         = (UCS_OK, s', ?entry\<lparr>entry_loaded := True\<rparr>)"
    and r3: "?names = [''UCX_FOO_QKEY'', ''UCX_FOO_IB_QKEY'', ''FOO_QKEY''] @ ''FOO_IB_QKEY'' # []
            \<and> (\<forall>h \<in> set [''UCX_FOO_QKEY'', ''UCX_FOO_IB_QKEY'', ''FOO_QKEY''].
                  config_var_lookup ?env ?init h = None)
            \<and> field_alone 0 ?steps ?pre 1 []
            \<and> (\<forall>x. parser_read (config_type_uint []) ''1'' x = (1, VUint 1)) \<longrightarrow>
            slots s' (nest_opts 0 ?steps + 1) = VUint 1"
    by blast
  have e1: "snd (ucs_config_parser_fill_opts fnmatch0 ?env (\<lambda>m. m) 0 ?entry ''UCX_FOO_'' False ?s)
            = (?R, ?entry)"
    by (simp add: fill_eval path_eval fun_eq_iff insert_commute)
  have e2: "fst (snd (ucs_config_parser_fill_opts fnmatch0 ?env (\<lambda>m. m) 0 ?entry ''UCX_FOO_''
                        True ?s)) = ?S"
    by (simp add: fill_eval path_eval fun_eq_iff insert_commute)
  from r1 e1 have w1: "ucs_config_parser_fill_opts fnmatch0 ?env (\<lambda>m. m) 0 ?entry ''UCX_FOO_''
                         False ?s = (UCS_ERR_INVALID_PARAM, ?R, ?entry)"
    by (metis prod.collapse fst_conv snd_conv)
  from r2 e2 have w2: "ucs_config_parser_fill_opts fnmatch0 ?env (\<lambda>m. m) 0 ?entry ''UCX_FOO_''
                         True ?s = (UCS_OK, ?S, ?entry\<lparr>entry_loaded := True\<rparr>)"
    by simp
  from w1 w2 show ?thesis by simp
qed

end
